theory Spec2Isabelle
  imports Main "HOL-Library.Word" "HOL-Library.Sublist" "HOL-Library.Multiset"
begin

section \<open>JavaScript strings\<close>

text \<open>
  A JavaScript string is a sequence of 16-bit code units. Literals of the source that
  are plain ASCII are written \<open>ascii ''...''\<close>; the two emoji of the markdown headings are
  written as their surrogate pairs.
\<close>

type_synonym js_char = "16 word"
type_synonym js_string = "js_char list"

definition ascii :: "string \<Rightarrow> js_string" where
  "ascii s = map of_char s"

text \<open>
  \<open>String.prototype.trim\<close> removes leading and trailing WhiteSpace and LineTerminator
  code points (ECMA-262, 12.2 and 12.3); all of them are single code units.
\<close>

definition is_line_terminator :: "js_char \<Rightarrow> bool" where
  "is_line_terminator c \<longleftrightarrow> c = 0x0A \<or> c = 0x0D \<or> c = 0x2028 \<or> c = 0x2029"

definition is_white_space :: "js_char \<Rightarrow> bool" where
  "is_white_space c \<longleftrightarrow>
     c = 0x09 \<or> c = 0x0B \<or> c = 0x0C \<or> c = 0x20 \<or> c = 0xA0 \<or> c = 0x1680 \<or>
     (0x2000 \<le> c \<and> c \<le> 0x200A) \<or> c = 0x202F \<or> c = 0x205F \<or> c = 0x3000 \<or>
     c = 0xFEFF"

definition is_trimmed_char :: "js_char \<Rightarrow> bool" where
  "is_trimmed_char c \<longleftrightarrow> is_white_space c \<or> is_line_terminator c"

definition trim :: "js_string \<Rightarrow> js_string" where
  "trim s = rev (dropWhile is_trimmed_char (rev (dropWhile is_trimmed_char s)))"

text \<open>The regular-expression class \<open>\d\<close> (without the unicode flag): the ten ASCII digits.\<close>

definition is_digit :: "js_char \<Rightarrow> bool" where
  "is_digit c \<longleftrightarrow> 0x30 \<le> c \<and> c \<le> 0x39"

text \<open>
  The decimal digits of a non-negative integer, most significant first, and the reading
  of a digit string back, used to state what a decimal rendering is.
\<close>

definition digit_char :: "int \<Rightarrow> js_char" where
  "digit_char d = of_int (48 + d)"

function decimal_digits :: "int \<Rightarrow> js_string" where
  "decimal_digits n =
     (if n < 10 then [digit_char n] else decimal_digits (n div 10) @ [digit_char (n mod 10)])"
  by pat_completeness auto
termination
  by (relation "measure nat") auto

declare decimal_digits.simps [simp del]

definition digit_value :: "js_char \<Rightarrow> int" where
  "digit_value c = uint c - 48"

definition digits_value :: "js_string \<Rightarrow> int" where
  "digits_value ds = foldl (\<lambda>acc c. 10 * acc + digit_value c) 0 ds"


section \<open>JavaScript numbers\<close>

text \<open>
  The source's \<open>number\<close> is an IEEE 754 binary64 value. The fork indices, the time stamps
  and the turn indices are integers, and a Number whose value is an integer is modelled
  by that \<open>int\<close>. Not every \<open>int\<close> is a Number: a binary64 value has at most 53 significant
  bits and a magnitude below \<open>2 ^ 1024\<close>. \<open>is_number\<close> tells the integers that are Numbers
  from the others, which no argument of the program can be.

  \<open>bit_length n\<close> is the number of binary digits of a positive \<open>n\<close>; \<open>round53\<close> rounds a
  non-negative integer to 53 significant bits, to the nearest value and to the one with
  the even significand on a tie, which is the rounding of every arithmetic operation.
\<close>

function bit_length :: "int \<Rightarrow> nat" where
  "bit_length n = (if n \<le> 0 then 0 else Suc (bit_length (n div 2)))"
  by pat_completeness auto
termination
  by (relation "measure nat") auto

declare bit_length.simps [simp del]

definition round53 :: "int \<Rightarrow> int" where
  "round53 v =
     (let b = bit_length v
      in if b \<le> 53 then v
         else (let e = b - 53; q = v div 2 ^ e; r = v mod 2 ^ e; half = 2 ^ (e - 1)
               in (if r > half \<or> (r = half \<and> odd q) then q + 1 else q) * 2 ^ e))"

definition to_number :: "int \<Rightarrow> int" where
  "to_number i = (if i < 0 then - round53 (- i) else round53 i)"

definition is_number :: "int \<Rightarrow> bool" where
  "is_number i \<longleftrightarrow> to_number i = i \<and> bit_length \<bar>i\<bar> \<le> 1024"

text \<open>
  \<open>a + b\<close> on two integer-valued Numbers: the exact sum, rounded. The source adds 1 to a
  Number that is not negative, where the rounded sum is finite.
\<close>

definition number_add :: "int \<Rightarrow> int \<Rightarrow> int" where
  "number_add a b = to_number (a + b)"

text \<open>
  \<open>Number::toString\<close> in radix 10 (ECMA-262, 6.1.6.1.20), which a template literal
  applies to a Number, for a positive integer-valued \<open>x\<close>: with \<open>n\<close>, \<open>k\<close> and \<open>s\<close> integers
  such that \<open>k \<ge> 1\<close>, \<open>s\<close> has \<open>k\<close> digits, \<open>s \<times> 10 ^ (n - k)\<close> rounds to \<open>x\<close> and \<open>k\<close> is as small
  as possible (the \<open>s\<close> closest to \<open>x\<close> when several qualify, the even one of two equally
  close), the result is the digits of \<open>s\<close> followed by \<open>n - k\<close> zeros when \<open>n \<le> 21\<close>, and
  the exponent notation \<open>d.ddde+(n-1)\<close> otherwise.

  \<open>shortest_round_trip x j\<close> is the integer \<open>s \<times> 10 ^ (n - k)\<close>: the multiple of the largest
  power of ten, from \<open>10 ^ j\<close> downwards, that rounds to \<open>x\<close>. Only the two multiples next
  to \<open>x\<close> have to be tried, the rounding being monotone.
\<close>

fun shortest_round_trip :: "int \<Rightarrow> nat \<Rightarrow> int" where
  "shortest_round_trip x 0 = x"
| "shortest_round_trip x (Suc j) =
     (let step = 10 ^ Suc j; lo = (x div step) * step; hi = lo + step;
          lo_ok = (round53 lo = x); hi_ok = (round53 hi = x)
      in if lo_ok \<and> hi_ok then
           (if x - lo < hi - x then lo
            else if hi - x < x - lo then hi
            else if even (x div step) then lo else hi)
         else if lo_ok then lo
         else if hi_ok then hi
         else shortest_round_trip x j)"

function strip_zeros :: "int \<Rightarrow> int" where
  "strip_zeros v = (if v > 0 \<and> v mod 10 = 0 then strip_zeros (v div 10) else v)"
  by pat_completeness auto
termination
  by (relation "measure nat") auto

declare strip_zeros.simps [simp del]

definition positive_to_string :: "int \<Rightarrow> js_string" where
  "positive_to_string x =
     (let v = shortest_round_trip x (length (decimal_digits x) - 1);
          n = length (decimal_digits v);
          s = decimal_digits (strip_zeros v);
          k = length s
      in if n \<le> 21 then decimal_digits v
         else if k = 1 then s @ ascii ''e+'' @ decimal_digits (int (n - 1))
         else hd s # 0x2E # tl s @ ascii ''e+'' @ decimal_digits (int (n - 1)))"

text \<open>The conversion is defined on Numbers only: \<open>None\<close> for an integer that is not one.\<close>

definition number_to_string :: "int \<Rightarrow> js_string option" where
  "number_to_string i =
     (if \<not> is_number i then None
      else if i = 0 then Some (ascii ''0'')
      else if i < 0 then Some (0x2D # positive_to_string (- i))
      else Some (positive_to_string i))"


section \<open>Turn identifiers (turnId.ts)\<close>

text \<open>
  \<^verbatim>\<open>const USER_TURN_ID_RE = /^u-(\d+)(?:-.+)?$/;\<close>

  The matcher returns capture group 1 on a match. The digit run is the maximal one: after
  a shorter run the next code unit is a digit, so neither the optional group nor the end
  anchor can match there. Without the \<open>s\<close> flag the dot matches every code unit except
  the four line terminators, and without the \<open>m\<close> flag the anchors are the two ends.
\<close>

definition USER_TURN_ID_RE :: "js_string \<Rightarrow> js_string option" where
  "USER_TURN_ID_RE s =
     (case s of
        u # dash # rest \<Rightarrow>
          if u = 0x75 \<and> dash = 0x2D then
            (let ds = takeWhile is_digit rest; suffix = dropWhile is_digit rest
             in if ds = [] then None
                else (case suffix of
                        [] \<Rightarrow> Some ds
                      | c # more \<Rightarrow>
                          if c = 0x2D \<and> more \<noteq> [] \<and> (\<forall>x \<in> set more. \<not> is_line_terminator x)
                          then Some ds else None))
          else None
      | _ \<Rightarrow> None)"

text \<open>
  \<^verbatim>\<open>return `u-${Math.max(0, index)}`;\<close>

  \<open>Math.max\<close> of two Numbers is exact; the template literal converts its result with
  \<open>Number::toString\<close>.
\<close>

definition makeStableTurnId :: "int \<Rightarrow> js_string option" where
  "makeStableTurnId index =
     (case number_to_string (max 0 index) of
        None \<Rightarrow> None
      | Some digits \<Rightarrow> Some (ascii ''u-'' @ digits))"

definition normalizeTurnId :: "js_string \<Rightarrow> js_string" where
  "normalizeTurnId turnId =
     (let trimmed = trim turnId
      in case USER_TURN_ID_RE trimmed of
           None \<Rightarrow> trimmed
         | Some m1 \<Rightarrow> ascii ''u-'' @ m1)"

text \<open>
  The words of the specification: a string has a leading \<open>u-<digits>\<close> prefix when it
  starts with \<open>u-\<close> followed by at least one digit.
\<close>

definition has_user_turn_prefix :: "js_string \<Rightarrow> bool" where
  "has_user_turn_prefix s =
     (case s of u # dash # d # _ \<Rightarrow> u = 0x75 \<and> dash = 0x2D \<and> is_digit d | _ \<Rightarrow> False)"


section \<open>Fork nodes (forkTypes.ts)\<close>

text \<open>
  The fields of the interface \<open>ForkNode\<close>; \<open>conversationTitle\<close> is optional. The two
  numbers are modelled as integers.
\<close>

record ForkNode =
  turnId :: js_string
  conversationId :: js_string
  conversationUrl :: js_string
  conversationTitle :: "js_string option"
  forkGroupId :: js_string
  forkIndex :: int
  createdAt :: int


section \<open>Fork plans and branch display (branching.ts)\<close>

text \<open>
  The interface \<open>ForkPlan\<close>; its field \<open>forkGroupId\<close> is \<open>plan_forkGroupId\<close> here, the
  name being the one of the field of \<open>ForkNode\<close>.
\<close>

record ForkPlan =
  plan_forkGroupId :: js_string
  sourceForkIndex :: int
  nextForkIndex :: int

text \<open>
  \<open>Array.from(new Set(xs))\<close>: a JavaScript \<open>Set\<close> keeps its elements in insertion order, and
  adding an element that is already present changes nothing.
\<close>

definition set_add :: "'a list \<Rightarrow> 'a \<Rightarrow> 'a list" where
  "set_add s x = (if x \<in> set s then s else s @ [x])"

definition array_from_set :: "'a list \<Rightarrow> 'a list" where
  "array_from_set xs = foldl set_add [] xs"

text \<open>
  \<open>groups[groupId] || []\<close>, the record of groups being a partial map from group ids to
  node lists (group ids are generated identifiers, never the name of a property that
  every object inherits).
\<close>

definition group_nodes :: "(js_string \<rightharpoonup> ForkNode list) \<Rightarrow> js_string \<Rightarrow> ForkNode list" where
  "group_nodes groups groupId = (case groups groupId of None \<Rightarrow> [] | Some ns \<Rightarrow> ns)"

text \<open>The \<open>for (const groupId of groupIds)\<close> loop, its state the pair of the two \<open>let\<close> variables.\<close>

fun best_group_loop ::
  "(js_string \<rightharpoonup> ForkNode list) \<Rightarrow> js_string list \<Rightarrow> js_string \<times> ForkNode list \<Rightarrow>
     js_string \<times> ForkNode list" where
  "best_group_loop groups [] best = best"
| "best_group_loop groups (groupId # groupIds) (bestGroupId, bestGroupNodes) =
     (let groupNodes = group_nodes groups groupId
      in if length groupNodes > length bestGroupNodes
         then best_group_loop groups groupIds (groupId, groupNodes)
         else best_group_loop groups groupIds (bestGroupId, bestGroupNodes))"

definition same_turn_nodes :: "js_string \<Rightarrow> ForkNode list \<Rightarrow> ForkNode list" where
  "same_turn_nodes tId conversationNodes =
     filter (\<lambda>node. normalizeTurnId (turnId node) = normalizeTurnId tId) conversationNodes"

text \<open>
  \<open>groupIds[0]\<close> is read only after \<open>sameTurnNodes\<close> was found non-empty, where \<open>groupIds\<close>
  has an element.
\<close>

definition best_group ::
  "(js_string \<rightharpoonup> ForkNode list) \<Rightarrow> ForkNode list \<Rightarrow> js_string \<times> ForkNode list" where
  "best_group groups sameTurnNodes =
     (let groupIds = array_from_set (map forkGroupId sameTurnNodes)
      in best_group_loop groups groupIds (hd groupIds, group_nodes groups (hd groupIds)))"

text \<open>
  \<open>createForkGroupId\<close> is called only when no node matches; it is a parameter, and the
  plan holds what it returns. \<open>Math.max\<close> in the \<open>reduce\<close> is exact on Numbers;
  \<open>maxForkIndex + 1\<close> is an addition of Numbers, which rounds.
\<close>

definition resolveForkPlan ::
  "js_string \<Rightarrow> js_string \<Rightarrow> ForkNode list \<Rightarrow> (js_string \<rightharpoonup> ForkNode list) \<Rightarrow>
     (unit \<Rightarrow> js_string) \<Rightarrow> ForkPlan" where
  "resolveForkPlan cId tId conversationNodes groups createForkGroupId =
     (let normalizedTurnId = normalizeTurnId tId;
          sameTurnNodes = same_turn_nodes tId conversationNodes
      in if length sameTurnNodes = 0 then
           \<lparr>plan_forkGroupId = createForkGroupId (), sourceForkIndex = 0, nextForkIndex = 1\<rparr>
         else
           (let (bestGroupId, bestGroupNodes) = best_group groups sameTurnNodes;
                sourceNode = find (\<lambda>node. conversationId node = cId \<and>
                                   normalizeTurnId (turnId node) = normalizedTurnId) bestGroupNodes;
                maxForkIndex = foldl (\<lambda>mx node. max mx (forkIndex node)) 0 bestGroupNodes
            in \<lparr>plan_forkGroupId = bestGroupId,
                sourceForkIndex = (case sourceNode of None \<Rightarrow> 0 | Some node \<Rightarrow> forkIndex node),
                nextForkIndex = number_add maxForkIndex 1\<rparr>))"

definition group_size :: "(js_string \<rightharpoonup> ForkNode list) \<Rightarrow> js_string \<Rightarrow> nat" where
  "group_size groups groupId = length (group_nodes groups groupId)"

text \<open>
  A JavaScript \<open>Map\<close> as an association list in insertion order: \<open>set\<close> on a key that is
  present replaces the value in place, \<open>get\<close> is \<open>map_of\<close>, \<open>values()\<close> is \<open>map snd\<close>.
\<close>

fun map_set :: "('k \<times> 'v) list \<Rightarrow> 'k \<Rightarrow> 'v \<Rightarrow> ('k \<times> 'v) list" where
  "map_set [] k v = [(k, v)]"
| "map_set ((k', v') # m) k v = (if k' = k then (k, v) # m else (k', v') # map_set m k v)"

text \<open>The body of the loop over \<open>groupNodesList.flat()\<close>.\<close>

definition dedupe_step ::
  "(js_string \<times> ForkNode) list \<Rightarrow> ForkNode \<Rightarrow> (js_string \<times> ForkNode) list" where
  "dedupe_step dedupedByConversation node =
     (case map_of dedupedByConversation (conversationId node) of
        None \<Rightarrow> map_set dedupedByConversation (conversationId node) node
      | Some existing \<Rightarrow>
          if forkIndex node < forkIndex existing
          then map_set dedupedByConversation (conversationId node) node
          else if forkIndex node = forkIndex existing \<and> createdAt node < createdAt existing
          then map_set dedupedByConversation (conversationId node) node
          else dedupedByConversation)"

text \<open>The comparator passed to \<open>sort\<close>.\<close>

definition compare_nodes :: "ForkNode \<Rightarrow> ForkNode \<Rightarrow> int" where
  "compare_nodes a b =
     (if forkIndex a \<noteq> forkIndex b then forkIndex a - forkIndex b else createdAt a - createdAt b)"

text \<open>
  \<open>Array.prototype.sort\<close> is a stable sort; with a consistent comparator its result is the
  one of the stable insertion sort.
\<close>

fun insert_sorted :: "('a \<Rightarrow> 'a \<Rightarrow> int) \<Rightarrow> 'a \<Rightarrow> 'a list \<Rightarrow> 'a list" where
  "insert_sorted cmp x [] = [x]"
| "insert_sorted cmp x (y # ys) =
     (if cmp x y \<le> 0 then x # y # ys else y # insert_sorted cmp x ys)"

definition array_sort :: "('a \<Rightarrow> 'a \<Rightarrow> int) \<Rightarrow> 'a list \<Rightarrow> 'a list" where
  "array_sort cmp xs = foldr (insert_sorted cmp) xs []"

definition buildBranchDisplayNodes :: "ForkNode list list \<Rightarrow> ForkNode list" where
  "buildBranchDisplayNodes groupNodesList =
     (let dedupedByConversation = foldl dedupe_step [] (concat groupNodesList)
      in array_sort compare_nodes (map snd dedupedByConversation))"

text \<open>The order of the display: \<open>forkIndex\<close> first, \<open>createdAt\<close> on equal \<open>forkIndex\<close>.\<close>

definition node_le :: "ForkNode \<Rightarrow> ForkNode \<Rightarrow> bool" where
  "node_le a b \<longleftrightarrow>
     forkIndex a < forkIndex b \<or> (forkIndex a = forkIndex b \<and> createdAt a \<le> createdAt b)"

text \<open>Nodes and groups for the examples, in the style of the repository's tests.\<close>

definition node :: "string \<Rightarrow> string \<Rightarrow> string \<Rightarrow> int \<Rightarrow> int \<Rightarrow> ForkNode" where
  "node c t g i ts =
     \<lparr>turnId = ascii t, conversationId = ascii c,
      conversationUrl = ascii ''/app/'' @ ascii c,
      conversationTitle = Some (ascii ''Conversation''), forkGroupId = ascii g,
      forkIndex = i, createdAt = ts\<rparr>"

definition example_groups :: "js_string \<rightharpoonup> ForkNode list" where
  "example_groups =
     [ascii ''g1'' \<mapsto> [node ''conv-1'' ''u-0'' ''g1'' 0 100],
      ascii ''g2'' \<mapsto> [node ''conv-1'' ''u-0'' ''g2'' 0 100, node ''conv-2'' ''u-0'' ''g2'' 4 200],
      ascii ''g3'' \<mapsto> [node ''conv-1'' ''u-0'' ''g3'' 0 100, node ''conv-3'' ''u-0'' ''g3'' 1 300]]"

definition grown_groups :: "js_string \<rightharpoonup> ForkNode list" where
  "grown_groups =
     example_groups(ascii ''g2'' \<mapsto>
       [node ''conv-4'' ''u-0'' ''g2'' 7 400, node ''conv-1'' ''u-0'' ''g2'' 0 100,
        node ''conv-2'' ''u-0'' ''g2'' 4 200])"

text \<open>A group whose only node has the fork index \<open>2 ^ 53\<close>.\<close>

definition large_index_groups :: "js_string \<rightharpoonup> ForkNode list" where
  "large_index_groups = [ascii ''g1'' \<mapsto> [node ''conv-1'' ''u-0'' ''g1'' 9007199254740992 100]]"

definition example_conversation_nodes :: "ForkNode list" where
  "example_conversation_nodes =
     [node ''conv-1'' ''u-0'' ''g1'' 0 100, node ''conv-1'' ''u-1'' ''g9'' 0 100,
      node ''conv-1'' ''u-0-abcd'' ''g2'' 0 100, node ''conv-1'' ''u-0'' ''g3'' 0 100,
      node ''conv-1'' '' u-0'' ''g2'' 0 100]"

definition group_a :: "ForkNode list" where
  "group_a = [node ''conv-1'' ''u-0'' ''group-a'' 0 100, node ''conv-2'' ''u-0'' ''group-a'' 1 200]"

definition group_b :: "ForkNode list" where
  "group_b = [node ''conv-1'' ''u-0'' ''group-b'' 0 100, node ''conv-3'' ''u-0'' ''group-b'' 1 300]"

text \<open>
  The invariant of the deduplication loop, \<open>seen\<close> being the nodes already visited: the
  map holds, for each conversation seen, a visited node of that conversation that is
  least in the display order among the visited nodes of the conversation.
\<close>

definition dedupe_inv :: "(js_string \<times> ForkNode) list \<Rightarrow> ForkNode list \<Rightarrow> bool" where
  "dedupe_inv m seen \<longleftrightarrow>
     distinct (map fst m) \<and> dom (map_of m) = conversationId ` set seen \<and>
     (\<forall>k v. map_of m k = Some v \<longrightarrow>
        conversationId v = k \<and> v \<in> set seen \<and>
        (\<forall>n \<in> set seen. conversationId n = k \<longrightarrow> node_le v n))"


section \<open>The markdown transcript (markdown.ts)\<close>

record ForkExtractedTurn =
  user :: js_string
  assistant :: "js_string option"

text \<open>\<open>lines.join(sep)\<close>.\<close>

fun join :: "js_string \<Rightarrow> js_string list \<Rightarrow> js_string" where
  "join sep [] = []"
| "join sep [x] = x"
| "join sep (x # y # ys) = x @ sep @ join sep (y # ys)"

text \<open>
  The two section headings; the emoji U+1F464 and U+1F916 are the surrogate pairs
  \<open>D83D DC64\<close> and \<open>D83E DD16\<close>.
\<close>

definition USER_HEADING :: js_string where
  "USER_HEADING = ascii ''### '' @ [0xD83D, 0xDC64] @ ascii '' User''"

definition ASSISTANT_HEADING :: js_string where
  "ASSISTANT_HEADING = ascii ''### '' @ [0xD83E, 0xDD16] @ ascii '' Assistant''"

text \<open>The first line, \<open>`# ${title || 'Untitled'}`\<close>: the empty string is the only falsy string.\<close>

definition title_line :: "js_string \<Rightarrow> js_string" where
  "title_line title = ascii ''# '' @ (if title = [] then ascii ''Untitled'' else title)"

text \<open>
  The lines pushed for one turn. \<open>turn.assistant?.trim()\<close> is truthy when the field is
  present and not empty after trimming.
\<close>

definition turn_lines :: "ForkExtractedTurn \<Rightarrow> js_string list" where
  "turn_lines turn =
     [USER_HEADING, [], user turn, []] @
     (case assistant turn of
        None \<Rightarrow> []
      | Some a \<Rightarrow> if trim a \<noteq> [] then [ASSISTANT_HEADING, [], a, []] else [])"

text \<open>\<open>normalizedTurns[normalizedTurns.length - 1].assistant = ''\<close>, on values.\<close>

definition clear_last_assistant :: "ForkExtractedTurn list \<Rightarrow> ForkExtractedTurn list" where
  "clear_last_assistant normalizedTurns =
     normalizedTurns[length normalizedTurns - 1 :=
       (normalizedTurns ! (length normalizedTurns - 1))\<lparr>assistant := Some []\<rparr>]"

text \<open>The function on values: what it returns.\<close>

definition buildForkMarkdown :: "js_string \<Rightarrow> ForkExtractedTurn list \<Rightarrow> bool \<Rightarrow> js_string" where
  "buildForkMarkdown title turns dropLastAssistant =
     (if length turns = 0 then []
      else
        (let copies = map (\<lambda>turn. turn) turns;
             normalizedTurns =
               (if dropLastAssistant \<and> length copies > 0 then clear_last_assistant copies
                else copies);
             lines = [title_line title, []] @ concat (map turn_lines normalizedTurns)
         in join [0x0A] lines))"

text \<open>
  The function on a store, to state what it writes. Objects live in a heap, a reference
  is an index into it, and \<open>alloc\<close> appends a fresh object. The argument \<open>turns\<close> is a
  reference to an array of references to turn objects; \<open>turns.map((turn) => ({ ...turn }))\<close>
  allocates one copy per element and then the new array; the assignment to
  \<open>.assistant\<close> is a write into the heap at the last element of the new array. The result
  is \<open>None\<close> only on a heap that the type \<open>ForkExtractedTurn[]\<close> excludes (a reference
  that is not to an object of the expected kind). The array \<open>lines\<close> is local to the call
  and is kept as a value.
\<close>

datatype js_object = TurnObject ForkExtractedTurn | TurnArray "nat list"

type_synonym heap = "js_object list"

definition alloc :: "heap \<Rightarrow> js_object \<Rightarrow> nat \<times> heap" where
  "alloc h obj = (length h, h @ [obj])"

definition read_turn :: "heap \<Rightarrow> nat \<Rightarrow> ForkExtractedTurn option" where
  "read_turn h a =
     (if a < length h then (case h ! a of TurnObject t \<Rightarrow> Some t | TurnArray _ \<Rightarrow> None) else None)"

definition read_array :: "heap \<Rightarrow> nat \<Rightarrow> nat list option" where
  "read_array h a =
     (if a < length h then (case h ! a of TurnArray refs \<Rightarrow> Some refs | TurnObject _ \<Rightarrow> None) else None)"

fun copy_turns :: "heap \<Rightarrow> nat list \<Rightarrow> (nat list \<times> heap) option" where
  "copy_turns h [] = Some ([], h)"
| "copy_turns h (a # as) =
     (case read_turn h a of
        None \<Rightarrow> None
      | Some turn \<Rightarrow>
          (let (c, h') = alloc h (TurnObject turn)
           in case copy_turns h' as of
                None \<Rightarrow> None
              | Some (cs, h'') \<Rightarrow> Some (c # cs, h'')))"

fun read_turns :: "heap \<Rightarrow> nat list \<Rightarrow> ForkExtractedTurn list option" where
  "read_turns h [] = Some []"
| "read_turns h (a # as) =
     (case read_turn h a of
        None \<Rightarrow> None
      | Some turn \<Rightarrow> (case read_turns h as of None \<Rightarrow> None | Some ts \<Rightarrow> Some (turn # ts)))"

definition write_assistant :: "heap \<Rightarrow> nat \<Rightarrow> js_string \<Rightarrow> heap option" where
  "write_assistant h a s =
     (case read_turn h a of
        None \<Rightarrow> None
      | Some turn \<Rightarrow> Some (h[a := TurnObject (turn\<lparr>assistant := Some s\<rparr>)]))"

definition buildForkMarkdown_heap ::
  "heap \<Rightarrow> js_string \<Rightarrow> nat \<Rightarrow> bool \<Rightarrow> (js_string \<times> heap) option" where
  "buildForkMarkdown_heap h title turns dropLastAssistant =
     (case read_array h turns of
        None \<Rightarrow> None
      | Some refs \<Rightarrow>
          if length refs = 0 then Some ([], h)
          else
            (case copy_turns h refs of
               None \<Rightarrow> None
             | Some (copies, h1) \<Rightarrow>
                 (let (normalizedTurns, h2) = alloc h1 (TurnArray copies)
                  in case (if dropLastAssistant \<and> length copies > 0
                           then write_assistant h2 (copies ! (length copies - 1)) []
                           else Some h2) of
                       None \<Rightarrow> None
                     | Some h3 \<Rightarrow>
                         (case read_array h3 normalizedTurns of
                            None \<Rightarrow> None
                          | Some elems \<Rightarrow>
                              (case read_turns h3 elems of
                                 None \<Rightarrow> None
                               | Some ts \<Rightarrow>
                                   Some (join [0x0A]
                                     ([title_line title, []] @ concat (map turn_lines ts)), h3))))))"

text \<open>The turns of the repository's test, and a heap that holds them.\<close>

definition example_turns :: "ForkExtractedTurn list" where
  "example_turns =
     [\<lparr>user = ascii ''u1'', assistant = Some (ascii ''a1'')\<rparr>,
      \<lparr>user = ascii ''u2'', assistant = Some (ascii ''a2'')\<rparr>]"

definition example_heap :: heap where
  "example_heap = [TurnObject (example_turns ! 0), TurnArray [0, 2], TurnObject (example_turns ! 1)]"


section \<open>The merge of two replicas (merge.ts)\<close>

text \<open>
  The two indices of \<open>ForkNodesData\<close> (forkTypes.ts), each a JavaScript object from keys
  to arrays: an association list in the order of the keys.
\<close>

record ForkNodesData =
  nodes :: "(js_string \<times> ForkNode list) list"
  groups :: "(js_string \<times> js_string list) list"

text \<open>
  Modelled from the spec: the file merge.ts, which defines \<open>mergeForkNodes\<close>, is not among
  the sources; only its test and the types are. Everything from here to the end of this
  section follows section 4.4 of the specification. An argument is a dataset, or is
  absent (\<open>null\<close>, \<open>undefined\<close>), or is malformed; the last two are treated as the empty
  dataset.
\<close>

datatype merge_input = Absent | Malformed | Dataset ForkNodesData

definition empty_dataset :: ForkNodesData where
  "empty_dataset = \<lparr>nodes = [], groups = []\<rparr>"

definition dataset_of :: "merge_input \<Rightarrow> ForkNodesData" where
  "dataset_of x = (case x of Absent \<Rightarrow> empty_dataset | Malformed \<Rightarrow> empty_dataset | Dataset d \<Rightarrow> d)"

text \<open>
  Modelled from the spec: the identity of a node for the merge is the triple
  \<open>(conversationId, turnId, forkGroupId)\<close>.
\<close>

definition node_identity :: "ForkNode \<Rightarrow> js_string \<times> js_string \<times> js_string" where
  "node_identity n = (conversationId n, turnId n, forkGroupId n)"

text \<open>
  Modelled from the spec: of two entries of one identity, the one with the strictly
  greater \<open>createdAt\<close> wins whole, and on a tie the one met first, which for a local and a
  cloud entry is the local one. The specification leaves open what happens to two
  entries of one identity inside one replica; the model treats them by the same rule, so
  that the output never holds an identity twice.
\<close>

definition pick_entry :: "ForkNode \<Rightarrow> ForkNode \<Rightarrow> ForkNode" where
  "pick_entry kept n = (if createdAt n > createdAt kept then n else kept)"

fun merge_entry :: "ForkNode list \<Rightarrow> ForkNode \<Rightarrow> ForkNode list" where
  "merge_entry [] n = [n]"
| "merge_entry (m # ms) n =
     (if node_identity m = node_identity n then pick_entry m n # ms else m # merge_entry ms n)"

text \<open>
  Modelled from the spec: the union of the entries of one conversation, the local ones
  first.
\<close>

definition merge_conversation :: "ForkNode list \<Rightarrow> ForkNode list \<Rightarrow> ForkNode list" where
  "merge_conversation localNodes cloudNodes = foldl merge_entry [] (localNodes @ cloudNodes)"

text \<open>Modelled from the spec: the entries of a conversation in an index, none for a missing key.\<close>

definition conversation_nodes :: "(js_string \<times> ForkNode list) list \<Rightarrow> js_string \<Rightarrow> ForkNode list" where
  "conversation_nodes idx cid = (case map_of idx cid of None \<Rightarrow> [] | Some ns \<Rightarrow> ns)"

text \<open>
  Modelled from the spec: every conversation id that appears in either replica, with its
  merged collection.
\<close>

definition merge_nodes ::
  "(js_string \<times> ForkNode list) list \<Rightarrow> (js_string \<times> ForkNode list) list \<Rightarrow>
     (js_string \<times> ForkNode list) list" where
  "merge_nodes l c =
     map (\<lambda>cid. (cid, merge_conversation (conversation_nodes l cid) (conversation_nodes c cid)))
       (array_from_set (map fst l @ map fst c))"

text \<open>Modelled from the spec: the composite key \<open>"conversationId:turnId"\<close> of a node.\<close>

definition composite_key :: "ForkNode \<Rightarrow> js_string" where
  "composite_key n = conversationId n @ ascii '':'' @ turnId n"

text \<open>Modelled from the spec: the member list of a group, empty for a missing group.\<close>

definition group_keys :: "(js_string \<times> js_string list) list \<Rightarrow> js_string \<Rightarrow> js_string list" where
  "group_keys gs g = (case map_of gs g of None \<Rightarrow> [] | Some ks \<Rightarrow> ks)"

text \<open>
  Modelled from the spec: the groups index is rebuilt from the merged nodes, each node's
  composite key inserted into the list of its \<open>forkGroupId\<close>, a key already present
  skipped.
\<close>

definition add_to_group ::
  "(js_string \<times> js_string list) list \<Rightarrow> ForkNode \<Rightarrow> (js_string \<times> js_string list) list" where
  "add_to_group gs n =
     (if composite_key n \<in> set (group_keys gs (forkGroupId n)) then gs
      else map_set gs (forkGroupId n) (group_keys gs (forkGroupId n) @ [composite_key n]))"

definition rebuild_groups :: "(js_string \<times> ForkNode list) list \<Rightarrow> (js_string \<times> js_string list) list" where
  "rebuild_groups idx = foldl add_to_group [] (concat (map snd idx))"

text \<open>
  Modelled from the spec: \<open>mergeForkNodes(local, cloud)\<close>; the groups indices of the
  arguments are not read.
\<close>

definition mergeForkNodes :: "merge_input \<Rightarrow> merge_input \<Rightarrow> ForkNodesData" where
  "mergeForkNodes local cloud =
     (let merged = merge_nodes (nodes (dataset_of local)) (nodes (dataset_of cloud))
      in \<lparr>nodes = merged, groups = rebuild_groups merged\<rparr>)"

text \<open>Two replicas in the style of the repository's test of the merge.\<close>

definition titled :: "string \<Rightarrow> ForkNode \<Rightarrow> ForkNode" where
  "titled t n = n\<lparr>conversationTitle := Some (ascii t)\<rparr>"

definition local_replica :: merge_input where
  "local_replica = Dataset \<lparr>nodes = [(ascii ''conv1'', [titled ''Local'' (node ''conv1'' ''u-0'' ''fork-1'' 0 1000)])],
     groups = [(ascii ''fork-1'', [ascii ''conv1:u-0''])]\<rparr>"

definition cloud_replica :: merge_input where
  "cloud_replica = Dataset \<lparr>nodes = [(ascii ''conv1'', [titled ''Cloud'' (node ''conv1'' ''u-0'' ''fork-1'' 0 1000)]),
       (ascii ''conv2'', [node ''conv2'' ''u-0'' ''fork-1'' 1 1000])],
     groups = [(ascii ''stale'', [ascii ''conv9:u-0''])]\<rparr>"

text \<open>
  The invariant of the rebuilding loop, \<open>seen\<close> being the nodes already visited: each
  group is listed once, the groups are those of the visited nodes, and the member list of
  a group holds exactly the composite keys of its visited nodes, none twice.
\<close>

definition groups_inv :: "(js_string \<times> js_string list) list \<Rightarrow> ForkNode list \<Rightarrow> bool" where
  "groups_inv gs seen \<longleftrightarrow>
     distinct (map fst gs) \<and> fst ` set gs = forkGroupId ` set seen \<and>
     (\<forall>g. set (group_keys gs g) = composite_key ` {n \<in> set seen. forkGroupId n = g}) \<and>
     (\<forall>g. distinct (group_keys gs g))"


section \<open>Properties of the string primitives\<close>

lemma ascii_u_dash: "ascii ''u-'' = [0x75, 0x2D]"
  by (simp add: ascii_def)

lemma digit_cases:
  assumes "0 \<le> d" "d < 10"
  shows "d = 0 \<or> d = 1 \<or> d = 2 \<or> d = 3 \<or> d = 4 \<or> d = 5 \<or> d = 6 \<or> d = 7 \<or> d = 8 \<or> d = (9::int)"
  using assms by arith

lemma digit_char_is_digit: "0 \<le> d \<Longrightarrow> d < 10 \<Longrightarrow> is_digit (digit_char d)"
  using digit_cases [of d] by (auto simp: is_digit_def digit_char_def)

lemma digit_value_digit_char: "0 \<le> d \<Longrightarrow> d < 10 \<Longrightarrow> digit_value (digit_char d) = d"
  using digit_cases [of d] by (auto simp: digit_value_def digit_char_def)

lemma decimal_digits_all_digits: "0 \<le> n \<Longrightarrow> c \<in> set (decimal_digits n) \<Longrightarrow> is_digit c"
proof (induction n arbitrary: c rule: decimal_digits.induct)
  case (1 n)
  show ?case
  proof (cases "n < 10")
    case True
    with "1.prems" show ?thesis
      by (subst (asm) decimal_digits.simps) (simp add: digit_char_is_digit)
  next
    case False
    from "1.prems" False
    have "c \<in> set (decimal_digits (n div 10)) \<or> c = digit_char (n mod 10)"
      by (subst (asm) decimal_digits.simps) auto
    with "1.IH" False show ?thesis
      by (auto simp: digit_char_is_digit)
  qed
qed

lemma decimal_digits_nonempty: "decimal_digits n \<noteq> []"
  by (subst decimal_digits.simps) simp

lemma digits_value_snoc: "digits_value (ds @ [c]) = 10 * digits_value ds + digit_value c"
  by (simp add: digits_value_def)

lemma digits_value_decimal_digits: "0 \<le> n \<Longrightarrow> digits_value (decimal_digits n) = n"
proof (induction n rule: decimal_digits.induct)
  case (1 n)
  show ?case
  proof (cases "n < 10")
    case True
    with "1.prems" show ?thesis
      by (subst decimal_digits.simps) (simp add: digits_value_def digit_value_digit_char)
  next
    case False
    with 1 have "digits_value (decimal_digits (n div 10)) = n div 10"
      by simp
    with False show ?thesis
      by (subst decimal_digits.simps) (simp add: digits_value_snoc digit_value_digit_char)
  qed
qed

lemma decimal_digits_0: "decimal_digits 0 = ascii ''0''"
  by (subst decimal_digits.simps) (simp add: digit_char_def ascii_def)

lemma dash_not_digit: "\<not> is_digit 0x2D"
  by (simp add: is_digit_def)

lemma trim_id:
  assumes "s \<noteq> []" "\<not> is_trimmed_char (hd s)" "\<not> is_trimmed_char (last s)"
  shows "trim s = s"
proof -
  from assms(1,2) have a: "dropWhile is_trimmed_char s = s"
    by (cases s) auto
  from assms(1,3) have "dropWhile is_trimmed_char (rev s) = rev s"
    by (cases "rev s") (auto simp: last_rev [symmetric] hd_rev)
  with a show ?thesis
    by (simp add: trim_def)
qed


section \<open>Properties of the numbers\<close>

lemma div_lower: "0 < c \<Longrightarrow> a * c \<le> v \<Longrightarrow> a \<le> v div (c::int)"
  using zdiv_mono1 [of "a * c" v c] by simp

lemma div_upper: "0 < c \<Longrightarrow> v < a * c \<Longrightarrow> v div (c::int) < a"
proof -
  assume c: "0 < c" and v: "v < a * c"
  have "(v div c) * c + v mod c = v"
    by (rule div_mult_mod_eq)
  moreover from c have "0 \<le> v mod c"
    by simp
  ultimately have "(v div c) * c \<le> v"
    by linarith
  with v have "(v div c) * c < a * c"
    by simp
  with c show ?thesis
    by (simp add: mult_less_cancel_right)
qed

lemma bit_length_less: "n < 2 ^ bit_length n"
proof (induction n rule: bit_length.induct)
  case (1 n)
  show ?case
  proof (cases "n \<le> 0")
    case True
    then have "n < 1"
      by simp
    also have "(1::int) \<le> 2 ^ bit_length n"
      by simp
    finally show ?thesis .
  next
    case False
    with 1 have "n div 2 < 2 ^ bit_length (n div 2)"
      by simp
    then have "n < 2 * 2 ^ bit_length (n div 2)"
      by linarith
    with False show ?thesis
      by (subst bit_length.simps) simp
  qed
qed

lemma bit_length_pos: "0 < n \<Longrightarrow> 0 < bit_length n"
  by (subst bit_length.simps) simp

lemma bit_length_nonpos: "n \<le> 0 \<Longrightarrow> bit_length n = 0"
  by (subst bit_length.simps) simp

lemma bit_length_ge: "0 < n \<Longrightarrow> 2 ^ (bit_length n - 1) \<le> n"
proof (induction n rule: bit_length.induct)
  case (1 n)
  from "1.prems" have s: "bit_length n = Suc (bit_length (n div 2))"
    by (subst bit_length.simps) simp
  show ?case
  proof (cases "n div 2 \<le> 0")
    case True
    then have "bit_length (n div 2) = 0"
      by (rule bit_length_nonpos)
    with "1.prems" s show ?thesis
      by simp
  next
    case False
    with 1 have ih: "2 ^ (bit_length (n div 2) - 1) \<le> n div 2"
      by simp
    from False have "0 < bit_length (n div 2)"
      by (intro bit_length_pos) simp
    then have "(2::int) ^ bit_length (n div 2) = 2 * 2 ^ (bit_length (n div 2) - 1)"
      by (cases "bit_length (n div 2)") simp_all
    with ih have "2 ^ bit_length (n div 2) \<le> n"
      by linarith
    with s show ?thesis
      by simp
  qed
qed

lemma bit_length_le: "n < 2 ^ k \<Longrightarrow> bit_length n \<le> k"
proof (rule ccontr)
  assume n: "n < 2 ^ k" and c: "\<not> bit_length n \<le> k"
  then have k: "k \<le> bit_length n - 1" and "0 < bit_length n"
    by simp_all
  then have "0 < n"
    by (cases "n \<le> 0") (simp_all add: bit_length_nonpos)
  then have "2 ^ (bit_length n - 1) \<le> n"
    by (rule bit_length_ge)
  moreover from k have "(2::int) ^ k \<le> 2 ^ (bit_length n - 1)"
    by (rule power_increasing) simp
  ultimately show False
    using n by linarith
qed

lemma bit_length_mono: "u \<le> v \<Longrightarrow> bit_length u \<le> bit_length v"
proof -
  assume "u \<le> v"
  with bit_length_less [of v] have "u < 2 ^ bit_length v"
    by linarith
  then show ?thesis
    by (rule bit_length_le)
qed

lemma bit_length_power: "bit_length (2 ^ k) = Suc k"
proof (rule antisym)
  have "(2::int) ^ k < 2 ^ Suc k"
    by simp
  then show "bit_length (2 ^ k) \<le> Suc k"
    by (rule bit_length_le)
next
  from bit_length_less [of "2 ^ k"] have "k < bit_length (2 ^ k)"
    by (simp add: power_strict_increasing_iff)
  then show "Suc k \<le> bit_length (2 ^ k)"
    by simp
qed

lemma round53_small: "v < 2 ^ 53 \<Longrightarrow> round53 v = v"
proof -
  assume "v < 2 ^ 53"
  then have "bit_length v \<le> 53"
    by (rule bit_length_le)
  then show ?thesis
    by (simp add: round53_def)
qed

lemma round53_2_53: "round53 (2 ^ 53) = 2 ^ 53"
proof -
  have "bit_length ((2::int) ^ 53) = 54"
    using bit_length_power [of 53] by simp
  then show ?thesis
    by (simp add: round53_def)
qed

lemma round53_exact: "v \<le> 2 ^ 53 \<Longrightarrow> round53 v = v"
  using round53_small [of v] round53_2_53 by (cases "v = 2 ^ 53") simp_all

lemma round53_quotient:
  assumes "53 < bit_length v"
  shows "2 ^ 52 \<le> v div 2 ^ (bit_length v - 53)" and "v div 2 ^ (bit_length v - 53) < 2 ^ 53"
proof -
  let ?e = "bit_length v - 53"
  from assms have pos: "0 < v"
    by (cases "v \<le> 0") (simp_all add: bit_length_nonpos)
  from assms have b: "bit_length v - 1 = 52 + ?e" "bit_length v = 53 + ?e"
    by simp_all
  have "(2::int) ^ 52 * 2 ^ ?e = 2 ^ (bit_length v - 1)"
    by (simp only: b(1) power_add)
  with bit_length_ge [OF pos] have "2 ^ 52 * 2 ^ ?e \<le> v"
    by simp
  then show "2 ^ 52 \<le> v div 2 ^ ?e"
    by (intro div_lower) simp_all
  have "(2::int) ^ 53 * 2 ^ ?e = 2 ^ bit_length v"
    by (metis b(2) power_add)
  with bit_length_less [of v] have "v < 2 ^ 53 * 2 ^ ?e"
    by simp
  then show "v div 2 ^ ?e < 2 ^ 53"
    by (intro div_upper) simp_all
qed

lemma round53_bounds:
  assumes "53 < bit_length v"
  shows "(v div 2 ^ (bit_length v - 53)) * 2 ^ (bit_length v - 53) \<le> round53 v"
    and "round53 v \<le> (v div 2 ^ (bit_length v - 53) + 1) * 2 ^ (bit_length v - 53)"
  using assms by (simp_all add: round53_def Let_def)

lemma round53_lower:
  assumes "53 < bit_length v"
  shows "2 ^ (bit_length v - 1) \<le> round53 v"
proof -
  from assms have b: "bit_length v - 1 = 52 + (bit_length v - 53)"
    by simp
  have "(2::int) ^ (bit_length v - 1) = 2 ^ 52 * 2 ^ (bit_length v - 53)"
    by (simp only: b power_add)
  also have "\<dots> \<le> (v div 2 ^ (bit_length v - 53)) * 2 ^ (bit_length v - 53)"
    using round53_quotient(1) [OF assms] by (intro mult_right_mono) simp_all
  also have "\<dots> \<le> round53 v"
    by (rule round53_bounds(1) [OF assms])
  finally show ?thesis .
qed

lemma round53_upper:
  assumes "53 < bit_length v"
  shows "round53 v \<le> 2 ^ bit_length v"
proof -
  from assms have b: "bit_length v = 53 + (bit_length v - 53)"
    by simp
  from round53_quotient(2) [OF assms]
  have "v div 2 ^ (bit_length v - 53) + 1 \<le> 2 ^ 53"
    by simp
  then have "(v div 2 ^ (bit_length v - 53) + 1) * 2 ^ (bit_length v - 53)
      \<le> 2 ^ 53 * 2 ^ (bit_length v - 53)"
    by (intro mult_right_mono) simp_all
  with round53_bounds(2) [OF assms] have "round53 v \<le> 2 ^ 53 * 2 ^ (bit_length v - 53)"
    by (rule order_trans)
  also have "(2::int) ^ 53 * 2 ^ (bit_length v - 53) = 2 ^ bit_length v"
    by (metis b power_add)
  finally show ?thesis .
qed

lemma round53_mono_same:
  assumes "u \<le> v" "bit_length u = bit_length v" "53 < bit_length v"
  shows "round53 u \<le> round53 v"
proof -
  let ?e = "bit_length v - 53"
  let ?qu = "u div 2 ^ ?e" and ?qv = "v div 2 ^ ?e"
  from assms(1) have q: "?qu \<le> ?qv"
    by (intro zdiv_mono1) simp_all
  show ?thesis
  proof (cases "?qu < ?qv")
    case True
    then have "(?qu + 1) * 2 ^ ?e \<le> ?qv * 2 ^ ?e"
      by (intro mult_right_mono) simp_all
    moreover have "round53 u \<le> (?qu + 1) * 2 ^ ?e"
      using round53_bounds(2) [of u] assms(2,3) by simp
    moreover have "?qv * 2 ^ ?e \<le> round53 v"
      using round53_bounds(1) [OF assms(3)] .
    ultimately show ?thesis
      by linarith
  next
    case False
    with q have eq: "?qu = ?qv"
      by simp
    have "?qu * 2 ^ ?e + u mod 2 ^ ?e = u"
      by (rule div_mult_mod_eq)
    then have "?qv * 2 ^ ?e + u mod 2 ^ ?e = u"
      by (simp only: eq)
    moreover have "?qv * 2 ^ ?e + v mod 2 ^ ?e = v"
      by (rule div_mult_mod_eq)
    ultimately have r: "u mod 2 ^ ?e \<le> v mod 2 ^ ?e"
      using assms(1) by linarith
    have ru: "round53 u = (if u mod 2 ^ ?e > 2 ^ (?e - 1) \<or> (u mod 2 ^ ?e = 2 ^ (?e - 1) \<and> odd ?qu)
        then ?qu + 1 else ?qu) * 2 ^ ?e"
      using assms(2,3) by (simp add: round53_def Let_def)
    have rv: "round53 v = (if v mod 2 ^ ?e > 2 ^ (?e - 1) \<or> (v mod 2 ^ ?e = 2 ^ (?e - 1) \<and> odd ?qv)
        then ?qv + 1 else ?qv) * 2 ^ ?e"
      using assms(3) by (simp add: round53_def Let_def)
    have "(if u mod 2 ^ ?e > 2 ^ (?e - 1) \<or> (u mod 2 ^ ?e = 2 ^ (?e - 1) \<and> odd ?qu)
        then ?qu + 1 else ?qu)
      \<le> (if v mod 2 ^ ?e > 2 ^ (?e - 1) \<or> (v mod 2 ^ ?e = 2 ^ (?e - 1) \<and> odd ?qv)
        then ?qv + 1 else ?qv)"
      using r eq by auto
    then show ?thesis
      unfolding ru rv by (intro mult_right_mono) simp_all
  qed
qed

lemma round53_mono: "u \<le> v \<Longrightarrow> round53 u \<le> round53 v"
proof -
  assume uv: "u \<le> v"
  then have b: "bit_length u \<le> bit_length v"
    by (rule bit_length_mono)
  show ?thesis
  proof (cases "bit_length v \<le> 53")
    case True
    with b uv show ?thesis
      by (simp add: round53_def)
  next
    case False
    then have v: "53 < bit_length v"
      by simp
    show ?thesis
    proof (cases "bit_length u = bit_length v")
      case True
      from uv True v show ?thesis
        by (rule round53_mono_same)
    next
      case False
      with b have lt: "bit_length u \<le> bit_length v - 1"
        by simp
      have "round53 u \<le> 2 ^ bit_length u"
      proof (cases "53 < bit_length u")
        case True
        then show ?thesis
          by (rule round53_upper)
      next
        case False
        then have "round53 u = u"
          by (simp add: round53_def)
        with bit_length_less [of u] show ?thesis
          by simp
      qed
      also from lt have "(2::int) ^ bit_length u \<le> 2 ^ (bit_length v - 1)"
        by (rule power_increasing) simp
      also have "\<dots> \<le> round53 v"
        using v by (rule round53_lower)
      finally show ?thesis .
    qed
  qed
qed

lemma round53_above_safe:
  assumes "x < 2 ^ 53" "x < v"
  shows "round53 v \<noteq> x"
proof -
  from assms have "x + 1 \<le> v" "x + 1 \<le> 2 ^ 53"
    by simp_all
  then have "x + 1 \<le> round53 v"
    using round53_mono [of "x + 1" v] round53_exact [of "x + 1"] by simp
  then show ?thesis
    by simp
qed

lemma shortest_round_trip_safe:
  assumes "x < 2 ^ 53"
  shows "shortest_round_trip x j = x"
proof (induction j)
  case 0
  show ?case by simp
next
  case (Suc j)
  let ?step = "(10::int) ^ Suc j"
  let ?lo = "(x div ?step) * ?step"
  have s: "0 < ?step"
    by simp
  have e: "?lo + x mod ?step = x"
    by (rule div_mult_mod_eq)
  have m: "0 \<le> x mod ?step" "x mod ?step < ?step"
    using s by (simp_all del: power_Suc)
  from e m have lo: "?lo \<le> x" and up: "x < ?lo + ?step"
    by linarith+
  from lo assms have rlo: "round53 ?lo = ?lo"
    by (intro round53_small) linarith
  from assms up have hi: "round53 (?lo + ?step) \<noteq> x"
    by (rule round53_above_safe)
  show ?case
  proof (cases "?lo = x")
    case True
    with rlo hi show ?thesis
      by (simp add: Let_def del: power_Suc)
  next
    case False
    with rlo hi Suc show ?thesis
      by (simp add: Let_def del: power_Suc)
  qed
qed

lemma length_decimal_digits: "0 < m \<Longrightarrow> x < 10 ^ m \<Longrightarrow> length (decimal_digits x) \<le> m"
proof (induction x arbitrary: m rule: decimal_digits.induct)
  case (1 n)
  show ?case
  proof (cases "n < 10")
    case True
    with "1.prems" show ?thesis
      by (subst decimal_digits.simps) simp
  next
    case False
    have "m \<noteq> 1"
      using False "1.prems" by auto
    with "1.prems" obtain m' where m: "m = Suc m'" "0 < m'"
      by (cases m) auto
    with "1.prems" have "n < 10 ^ m' * 10"
      by simp
    then have "n div 10 < 10 ^ m'"
      by (intro div_upper) simp_all
    with "1.IH" False m have "length (decimal_digits (n div 10)) \<le> m'"
      by simp
    with False m show ?thesis
      by (subst decimal_digits.simps) simp
  qed
qed

lemma positive_to_string_safe:
  assumes "x < 2 ^ 53"
  shows "positive_to_string x = decimal_digits x"
proof -
  from assms have "x < 10 ^ 21"
    by simp
  then have "length (decimal_digits x) \<le> 21"
    by (intro length_decimal_digits) simp_all
  then show ?thesis
    by (simp add: positive_to_string_def shortest_round_trip_safe [OF assms] Let_def)
qed

lemma is_number_safe:
  assumes "0 \<le> i" "i < 2 ^ 53"
  shows "is_number i"
proof -
  from assms have "bit_length i \<le> 53"
    by (intro bit_length_le)
  with assms show ?thesis
    by (simp add: is_number_def to_number_def round53_small)
qed

lemma number_to_string_safe:
  assumes "0 \<le> i" "i < 2 ^ 53"
  shows "number_to_string i = Some (decimal_digits i)"
  using assms
  by (simp add: number_to_string_def is_number_safe decimal_digits_0 positive_to_string_safe)

lemma number_add_safe:
  assumes "0 \<le> m" "m < 2 ^ 53"
  shows "number_add m 1 = m + 1"
proof -
  from assms have "round53 (m + 1) = m + 1"
    by (intro round53_exact) simp
  with assms show ?thesis
    by (simp add: number_add_def to_number_def)
qed

lemma number_add_mono:
  assumes "0 \<le> a" "a \<le> b"
  shows "number_add a 1 \<le> number_add b 1"
proof -
  from assms have "round53 (a + 1) \<le> round53 (b + 1)"
    by (intro round53_mono) simp
  with assms show ?thesis
    by (simp add: number_add_def to_number_def)
qed

lemma is_number_round53: "0 \<le> m \<Longrightarrow> is_number m \<Longrightarrow> round53 m = m"
  by (simp add: is_number_def to_number_def)

lemma number_add_ge:
  assumes "0 \<le> m" "is_number m"
  shows "m \<le> number_add m 1"
proof -
  have "round53 m \<le> round53 (m + 1)"
    by (rule round53_mono) simp
  with assms show ?thesis
    by (simp add: number_add_def to_number_def is_number_round53)
qed


section \<open>Properties of the turn identifiers\<close>

lemma USER_TURN_ID_RE_legacy:
  assumes "ds \<noteq> []" "\<forall>c \<in> set ds. is_digit c" "rest \<noteq> []"
    "\<forall>c \<in> set rest. \<not> is_line_terminator c"
  shows "USER_TURN_ID_RE (ascii ''u-'' @ ds @ 0x2D # rest) = Some ds"
proof -
  from assms(2) have t: "takeWhile is_digit (ds @ 0x2D # rest) = ds"
    by (simp add: takeWhile_tail dash_not_digit)
  from assms(2) have d: "dropWhile is_digit (ds @ 0x2D # rest) = 0x2D # rest"
    by (simp add: dropWhile_append3 dash_not_digit)
  from assms(1,3,4) show ?thesis
    unfolding USER_TURN_ID_RE_def ascii_u_dash by (simp add: t d)
qed

lemma USER_TURN_ID_RE_no_prefix:
  assumes "\<not> has_user_turn_prefix s"
  shows "USER_TURN_ID_RE s = None"
proof (cases s)
  case Nil
  then show ?thesis by (simp add: USER_TURN_ID_RE_def)
next
  case (Cons u s1)
  show ?thesis
  proof (cases s1)
    case Nil
    with Cons show ?thesis by (simp add: USER_TURN_ID_RE_def)
  next
    case (Cons dash rest)
    show ?thesis
    proof (cases rest)
      case Nil
      with \<open>s = u # s1\<close> \<open>s1 = dash # rest\<close> show ?thesis
        by (simp add: USER_TURN_ID_RE_def)
    next
      case (Cons d more)
      with assms \<open>s = u # s1\<close> \<open>s1 = dash # rest\<close>
      have "\<not> (u = 0x75 \<and> dash = 0x2D \<and> is_digit d)"
        by (simp add: has_user_turn_prefix_def)
      with Cons \<open>s = u # s1\<close> \<open>s1 = dash # rest\<close> show ?thesis
        by (auto simp: USER_TURN_ID_RE_def)
    qed
  qed
qed

text \<open>
  C10, as stated, fails: the digits after \<open>u-\<close> are those of \<open>Number::toString\<close>, which
  are not always the decimal rendering of the value. The index \<open>2 ^ 60\<close> is a Number and
  its decimal rendering is \<open>1152921504606846976\<close>, the identifier is
  \<open>u-1152921504606847000\<close>; the identifier of \<open>10 ^ 21\<close> is \<open>u-1e+21\<close>.
\<close>

theorem makeStableTurnId_claim_counterexample:
  "is_number 1152921504606846976 \<and>
   makeStableTurnId 1152921504606846976 = Some (ascii ''u-1152921504606847000'') \<and>
   decimal_digits 1152921504606846976 = ascii ''1152921504606846976'' \<and>
   is_number 1000000000000000000000 \<and>
   makeStableTurnId 1000000000000000000000 = Some (ascii ''u-1e+21'')"
  by code_simp

text \<open>
  C10, amended. For every integer index below \<open>2 ^ 53\<close>, the negative ones included,
  \<open>makeStableTurnId\<close> returns \<open>u-\<close> followed by the decimal rendering of \<open>max 0 index\<close> (a
  non-empty string of digits whose value is \<open>max 0 index\<close>), so every negative index
  gives \<open>u-0\<close>.
\<close>

theorem makeStableTurnId_clamps_at_zero:
  assumes "index < 2 ^ 53"
  shows "makeStableTurnId index = Some (ascii ''u-'' @ decimal_digits (max 0 index)) \<and>
   decimal_digits (max 0 index) \<noteq> [] \<and>
   (\<forall>c \<in> set (decimal_digits (max 0 index)). is_digit c) \<and>
   digits_value (decimal_digits (max 0 index)) = max 0 index \<and>
   (index < 0 \<longrightarrow> makeStableTurnId index = Some (ascii ''u-0''))"
proof -
  from assms have m: "0 \<le> max 0 index" "max 0 index < 2 ^ 53"
    by simp_all
  then have "number_to_string (max 0 index) = Some (decimal_digits (max 0 index))"
    by (rule number_to_string_safe)
  then have a: "makeStableTurnId index = Some (ascii ''u-'' @ decimal_digits (max 0 index))"
    by (simp add: makeStableTurnId_def)
  have b: "index < 0 \<longrightarrow> makeStableTurnId index = Some (ascii ''u-0'')"
    by (simp add: a max_def decimal_digits_0 ascii_def)
  from m(1) have c: "\<forall>c \<in> set (decimal_digits (max 0 index)). is_digit c"
    by (blast intro: decimal_digits_all_digits)
  from m(1) have d: "digits_value (decimal_digits (max 0 index)) = max 0 index"
    by (rule digits_value_decimal_digits)
  from a b c d show ?thesis
    by (simp add: decimal_digits_nonempty)
qed

theorem makeStableTurnId_clamps_at_zero_witness:
  "(-7::int) < 2 ^ 53 \<and> (-7::int) < 0 \<and> makeStableTurnId (-7) = Some (ascii ''u-0'') \<and>
   (1234::int) < 2 ^ 53 \<and> makeStableTurnId 1234 = Some (ascii ''u-1234'') \<and>
   digits_value (ascii ''1234'') = 1234"
proof -
  have d: "decimal_digits 1234 = ascii ''1234''"
    by code_simp
  have u: "ascii ''u-'' @ ascii ''1234'' = ascii ''u-1234''"
    by (simp add: ascii_def)
  from makeStableTurnId_clamps_at_zero [of "-7"]
  have "makeStableTurnId (-7) = Some (ascii ''u-0'')"
    by (simp add: decimal_digits_0 ascii_def)
  moreover from makeStableTurnId_clamps_at_zero [of 1234]
  have "makeStableTurnId 1234 = Some (ascii ''u-1234'') \<and> digits_value (ascii ''1234'') = 1234"
    by (simp add: d u)
  ultimately show ?thesis
    by simp
qed

text \<open>
  C8, as the specification states it, fails: the source trims its argument first, so a
  string without a \<open>u-<digits>\<close> prefix is not always returned equal to the input; and
  the suffix after the second dash has to match \<open>.+\<close>, so a suffix with a line break is
  not stripped.
\<close>

theorem normalizeTurnId_claim_counterexample:
  "\<not> has_user_turn_prefix (ascii '' abc'') \<and>
   normalizeTurnId (ascii '' abc'') \<noteq> ascii '' abc'' \<and>
   normalizeTurnId (ascii ''u-7-a'' @ [0x0A] @ ascii ''b'') \<noteq> ascii ''u-7''"
  by code_simp

text \<open>
  C8, amended. With \<open>t\<close> the argument after trimming surrounding white space:
  if \<open>t\<close> is \<open>u-<digits>-<suffix>\<close> with a non-empty suffix free of line terminators, the
  result is \<open>u-<digits>\<close>; if \<open>t\<close> has no leading \<open>u-<digits>\<close> prefix, the result is
  \<open>t\<close>, which is the argument itself whenever the argument neither starts nor ends with
  white space.
\<close>

theorem normalizeTurnId_trimmed:
  "(\<forall>ds rest. trim s = ascii ''u-'' @ ds @ 0x2D # rest \<and> ds \<noteq> [] \<and>
       (\<forall>c \<in> set ds. is_digit c) \<and> rest \<noteq> [] \<and> (\<forall>c \<in> set rest. \<not> is_line_terminator c)
       \<longrightarrow> normalizeTurnId s = ascii ''u-'' @ ds) \<and>
   (\<not> has_user_turn_prefix (trim s) \<longrightarrow> normalizeTurnId s = trim s) \<and>
   (s \<noteq> [] \<and> \<not> is_trimmed_char (hd s) \<and> \<not> is_trimmed_char (last s) \<longrightarrow> trim s = s)"
proof (intro conjI allI impI)
  fix ds rest
  assume h: "trim s = ascii ''u-'' @ ds @ 0x2D # rest \<and> ds \<noteq> [] \<and>
       (\<forall>c \<in> set ds. is_digit c) \<and> rest \<noteq> [] \<and> (\<forall>c \<in> set rest. \<not> is_line_terminator c)"
  then have "USER_TURN_ID_RE (trim s) = Some ds"
    using USER_TURN_ID_RE_legacy [of ds rest] by simp
  then show "normalizeTurnId s = ascii ''u-'' @ ds"
    by (simp add: normalizeTurnId_def)
next
  assume "\<not> has_user_turn_prefix (trim s)"
  then have "USER_TURN_ID_RE (trim s) = None"
    by (rule USER_TURN_ID_RE_no_prefix)
  then show "normalizeTurnId s = trim s"
    by (simp add: normalizeTurnId_def)
next
  assume "s \<noteq> [] \<and> \<not> is_trimmed_char (hd s) \<and> \<not> is_trimmed_char (last s)"
  then show "trim s = s"
    by (simp add: trim_id)
qed

theorem normalizeTurnId_trimmed_witness:
  "trim (ascii '' u-12-xyz '') = ascii ''u-'' @ ascii ''12'' @ 0x2D # ascii ''xyz'' \<and>
   normalizeTurnId (ascii '' u-12-xyz '') = ascii ''u-12'' \<and>
   \<not> is_trimmed_char (hd (ascii ''custom-id'')) \<and>
   \<not> is_trimmed_char (last (ascii ''custom-id'')) \<and>
   \<not> has_user_turn_prefix (trim (ascii ''custom-id'')) \<and>
   normalizeTurnId (ascii ''custom-id'') = ascii ''custom-id''"
proof -
  have t: "trim (ascii '' u-12-xyz '') = ascii ''u-'' @ ascii ''12'' @ 0x2D # ascii ''xyz''"
    by code_simp
  have d: "ascii ''12'' \<noteq> [] \<and> (\<forall>c \<in> set (ascii ''12''). is_digit c) \<and> ascii ''xyz'' \<noteq> [] \<and>
      (\<forall>c \<in> set (ascii ''xyz''). \<not> is_line_terminator c)"
    by code_simp
  have e: "ascii ''custom-id'' \<noteq> [] \<and> \<not> is_trimmed_char (hd (ascii ''custom-id'')) \<and>
      \<not> is_trimmed_char (last (ascii ''custom-id''))"
    by code_simp
  have n: "\<not> has_user_turn_prefix (trim (ascii ''custom-id''))"
    by code_simp
  have u: "ascii ''u-'' @ ascii ''12'' = ascii ''u-12''"
    by (simp add: ascii_def)
  from normalizeTurnId_trimmed [of "ascii '' u-12-xyz ''"] t d
  have "normalizeTurnId (ascii '' u-12-xyz '') = ascii ''u-'' @ ascii ''12''"
    by blast
  moreover from normalizeTurnId_trimmed [of "ascii ''custom-id''"] e
  have c: "trim (ascii ''custom-id'') = ascii ''custom-id''"
    by blast
  moreover from normalizeTurnId_trimmed [of "ascii ''custom-id''"] n c
  have "normalizeTurnId (ascii ''custom-id'') = ascii ''custom-id''"
    by simp
  ultimately show ?thesis
    using t n u e by simp
qed

section \<open>Properties of the fork plan\<close>

lemma foldl_set_add_prefix: "\<exists>zs. foldl set_add acc xs = acc @ zs"
proof (induction xs arbitrary: acc)
  case Nil
  then show ?case by simp
next
  case (Cons x xs)
  from Cons [of "set_add acc x"]
  obtain zs where z: "foldl set_add (set_add acc x) xs = set_add acc x @ zs"
    by blast
  have "\<exists>ys. set_add acc x = acc @ ys"
    by (simp add: set_add_def)
  then obtain ys where "set_add acc x = acc @ ys"
    by blast
  with z have "foldl set_add acc (x # xs) = acc @ (ys @ zs)"
    by simp
  then show ?case
    by auto
qed

lemma split_at_first_unique:
  assumes "x \<notin> set a" "x \<notin> set b" "a @ x # c = b @ x # d"
  shows "a = b"
proof -
  from assms(1) have "takeWhile (\<lambda>y. y \<noteq> x) (a @ x # c) = a"
    by (induction a) auto
  moreover from assms(2) have "takeWhile (\<lambda>y. y \<noteq> x) (b @ x # d) = b"
    by (induction b) auto
  ultimately show ?thesis
    using assms(3) by simp
qed

lemma Max_insert_max:
  assumes "finite S"
  shows "Max (insert (max a b) S) = Max (insert (a::int) (insert b S))"
  using assms by (cases "S = {}") (simp_all add: max.assoc)

lemma set_foldl_set_add: "set (foldl set_add acc xs) = set acc \<union> set xs"
  by (induction xs arbitrary: acc) (auto simp: set_add_def)

lemma distinct_foldl_set_add: "distinct acc \<Longrightarrow> distinct (foldl set_add acc xs)"
  by (induction xs arbitrary: acc) (auto simp: set_add_def)

lemma array_from_set_first_occurrence:
  assumes "r \<notin> set xs"
  shows "\<exists>zs. array_from_set (xs @ r # ys) = array_from_set xs @ r # zs"
proof -
  from assms have "r \<notin> set (foldl set_add [] xs)"
    by (simp add: set_foldl_set_add)
  then have "foldl set_add [] (xs @ r # ys) = foldl set_add (foldl set_add [] xs @ [r]) ys"
    by (simp add: set_add_def)
  moreover obtain zs where "foldl set_add (foldl set_add [] xs @ [r]) ys = (foldl set_add [] xs @ [r]) @ zs"
    using foldl_set_add_prefix by blast
  ultimately show ?thesis
    by (auto simp: array_from_set_def)
qed

lemma best_group_loop_first_max:
  assumes "\<forall>g \<in> set before. group_size groupsById g < group_size groupsById b"
    and "\<forall>g \<in> set after. group_size groupsById g \<le> group_size groupsById b"
  shows "\<exists>b' before' after'.
           best_group_loop groupsById gs (b, group_nodes groupsById b) = (b', group_nodes groupsById b') \<and>
           before @ b # after @ gs = before' @ b' # after' \<and>
           (\<forall>g \<in> set before'. group_size groupsById g < group_size groupsById b') \<and>
           (\<forall>g \<in> set after'. group_size groupsById g \<le> group_size groupsById b')"
  using assms
proof (induction gs arbitrary: b before after)
  case Nil
  then show ?case by auto
next
  case (Cons g gs)
  show ?case
  proof (cases "group_size groupsById g > group_size groupsById b")
    case True
    have "\<forall>x \<in> set (before @ b # after). group_size groupsById x < group_size groupsById g"
      using Cons.prems True by fastforce
    from Cons.IH [of "before @ b # after" g "[]", OF this] True
    show ?thesis
      by (simp add: group_size_def)
  next
    case False
    then have "\<forall>x \<in> set (after @ [g]). group_size groupsById x \<le> group_size groupsById b"
      using Cons.prems by auto
    from Cons.IH [of before b "after @ [g]", OF Cons.prems(1) this] False
    show ?thesis
      by (simp add: group_size_def)
  qed
qed

lemma best_group_first_max:
  assumes "ids \<noteq> []"
  shows "\<exists>b before after.
           best_group_loop groupsById (array_from_set ids) (hd (array_from_set ids), group_nodes groupsById (hd (array_from_set ids))) = (b, group_nodes groupsById b) \<and>
           ids = before @ b # after \<and>
           (\<forall>g \<in> set before. group_size groupsById g < group_size groupsById b) \<and>
           (\<forall>g \<in> set after. group_size groupsById g \<le> group_size groupsById b)"
proof -
  let ?gids = "array_from_set ids"
  from assms have "set ?gids \<noteq> {}"
    by (simp add: array_from_set_def set_foldl_set_add)
  then obtain h t where ht: "?gids = h # t"
    by (cases ?gids) auto
  have step: "best_group_loop groupsById (h # t) (h, group_nodes groupsById h) = best_group_loop groupsById t (h, group_nodes groupsById h)"
    by simp
  from best_group_loop_first_max [of "[]" groupsById h "[]" t]
  obtain b bf af where r: "best_group_loop groupsById t (h, group_nodes groupsById h) = (b, group_nodes groupsById b)"
    and sp: "h # t = bf @ b # af"
    and lt: "\<forall>g \<in> set bf. group_size groupsById g < group_size groupsById b"
    and le: "\<forall>g \<in> set af. group_size groupsById g \<le> group_size groupsById b"
    by auto
  have dg: "distinct ?gids"
    by (simp add: array_from_set_def distinct_foldl_set_add)
  have sg: "set ?gids = set ids"
    by (simp add: array_from_set_def set_foldl_set_add)
  from sp ht sg have "b \<in> set ids"
    by auto
  then obtain before after where ids: "ids = before @ b # after" and nb: "b \<notin> set before"
    by (auto dest: split_list_first)
  from array_from_set_first_occurrence [OF nb, of after] ids
  obtain zs where g2: "?gids = array_from_set before @ b # zs"
    by auto
  from dg ht sp have "b \<notin> set bf"
    by auto
  moreover from dg g2 have "b \<notin> set (array_from_set before)"
    by auto
  moreover from g2 ht sp have "bf @ b # af = array_from_set before @ b # zs"
    by simp
  ultimately have "bf = array_from_set before"
    by (rule split_at_first_unique)
  then have "set before = set bf"
    by (simp add: array_from_set_def set_foldl_set_add)
  with lt have 1: "\<forall>g \<in> set before. group_size groupsById g < group_size groupsById b"
    by simp
  have "\<forall>g \<in> set ids. group_size groupsById g \<le> group_size groupsById b"
  proof
    fix g assume "g \<in> set ids"
    with sg ht sp have "g \<in> set bf \<or> g = b \<or> g \<in> set af"
      by auto
    with lt le show "group_size groupsById g \<le> group_size groupsById b"
      by auto
  qed
  with ids have 2: "\<forall>g \<in> set after. group_size groupsById g \<le> group_size groupsById b"
    by simp
  from r step ht ids 1 2 show ?thesis
    by auto
qed

lemma foldl_max_Max:
  "foldl (\<lambda>mx node. max mx (forkIndex node)) m ns = Max (insert m (forkIndex ` set ns))"
proof (induction ns arbitrary: m)
  case Nil
  then show ?case by simp
next
  case (Cons n ns)
  have "Max (insert (max m (forkIndex n)) (forkIndex ` set ns)) =
      Max (insert m (insert (forkIndex n) (forkIndex ` set ns)))"
    by (rule Max_insert_max) simp
  with Cons [of "max m (forkIndex n)"] show ?case
    by simp
qed

lemma best_group_split:
  assumes "sameTurnNodes \<noteq> []"
  shows "\<exists>b before after.
           best_group groupsById sameTurnNodes = (b, group_nodes groupsById b) \<and>
           map forkGroupId sameTurnNodes = before @ b # after \<and>
           (\<forall>g \<in> set before. group_size groupsById g < group_size groupsById b) \<and>
           (\<forall>g \<in> set after. group_size groupsById g \<le> group_size groupsById b)"
proof -
  from assms have "map forkGroupId sameTurnNodes \<noteq> []"
    by simp
  from best_group_first_max [OF this, of groupsById] show ?thesis
    by (simp add: best_group_def Let_def)
qed

lemma resolveForkPlan_existing:
  assumes "same_turn_nodes tId conversationNodes \<noteq> []"
    and "best_group groupsById (same_turn_nodes tId conversationNodes) = (b, ns)"
  shows "plan_forkGroupId (resolveForkPlan cId tId conversationNodes groupsById createForkGroupId) = b"
    and "nextForkIndex (resolveForkPlan cId tId conversationNodes groupsById createForkGroupId) =
           number_add (foldl (\<lambda>mx node. max mx (forkIndex node)) 0 ns) 1"
  using assms by (simp_all add: resolveForkPlan_def Let_def)

lemma nextForkIndex_chosen:
  assumes "same_turn_nodes tId conversationNodes \<noteq> []"
  shows "nextForkIndex (resolveForkPlan cId tId conversationNodes groupsById createForkGroupId) =
           number_add (Max (insert 0 (forkIndex ` set (group_nodes groupsById
             (plan_forkGroupId (resolveForkPlan cId tId conversationNodes groupsById createForkGroupId)))))) 1"
proof -
  from best_group_split [OF assms, of groupsById]
  obtain b where b: "best_group groupsById (same_turn_nodes tId conversationNodes) = (b, group_nodes groupsById b)"
    by blast
  from resolveForkPlan_existing [OF assms b] show ?thesis
    by (simp add: foldl_max_Max)
qed

text \<open>
  C4. When at least one node of the conversation matches the normalized turn id, the
  group id of the plan occurs among the group ids of the matching nodes, every group id
  listed before its first occurrence has a strictly smaller node list in the record of
  groups, and every other one has a node list that is not larger: it is the largest
  group, the first one encountered among equals. A group missing from the record counts
  as empty.
\<close>

theorem resolveForkPlan_largest_group_first:
  assumes "same_turn_nodes tId conversationNodes \<noteq> []"
  shows "\<exists>before after.
           map forkGroupId (same_turn_nodes tId conversationNodes) =
             before @ plan_forkGroupId (resolveForkPlan cId tId conversationNodes groupsById createForkGroupId) # after \<and>
           (\<forall>g \<in> set before. group_size groupsById g <
              group_size groupsById (plan_forkGroupId (resolveForkPlan cId tId conversationNodes groupsById createForkGroupId))) \<and>
           (\<forall>g \<in> set after. group_size groupsById g \<le>
              group_size groupsById (plan_forkGroupId (resolveForkPlan cId tId conversationNodes groupsById createForkGroupId)))"
proof -
  from best_group_split [OF assms, of groupsById]
  obtain b before after where
    b: "best_group groupsById (same_turn_nodes tId conversationNodes) = (b, group_nodes groupsById b)"
    and s: "map forkGroupId (same_turn_nodes tId conversationNodes) = before @ b # after"
    and l: "\<forall>g \<in> set before. group_size groupsById g < group_size groupsById b"
    and m: "\<forall>g \<in> set after. group_size groupsById g \<le> group_size groupsById b"
    by blast
  from resolveForkPlan_existing(1) [OF assms b]
  have "plan_forkGroupId (resolveForkPlan cId tId conversationNodes groupsById createForkGroupId) = b" .
  with s l m show ?thesis
    by blast
qed

theorem resolveForkPlan_largest_group_first_witness:
  "same_turn_nodes (ascii ''u-0'') example_conversation_nodes \<noteq> [] \<and>
   plan_forkGroupId (resolveForkPlan (ascii ''conv-1'') (ascii ''u-0'') example_conversation_nodes
      example_groups (\<lambda>_. ascii ''new-group'')) = ascii ''g2'' \<and>
   (\<exists>before after.
      map forkGroupId (same_turn_nodes (ascii ''u-0'') example_conversation_nodes) =
        before @ ascii ''g2'' # after \<and>
      (\<forall>g \<in> set before. group_size example_groups g < group_size example_groups (ascii ''g2'')) \<and>
      (\<forall>g \<in> set after. group_size example_groups g \<le> group_size example_groups (ascii ''g2'')))"
proof -
  have h: "same_turn_nodes (ascii ''u-0'') example_conversation_nodes \<noteq> []"
    by code_simp
  have r: "plan_forkGroupId (resolveForkPlan (ascii ''conv-1'') (ascii ''u-0'') example_conversation_nodes
      example_groups (\<lambda>_. ascii ''new-group'')) = ascii ''g2''"
    by code_simp
  from resolveForkPlan_largest_group_first [OF h, of "ascii ''conv-1''" example_groups "\<lambda>_. ascii ''new-group''"]
  show ?thesis
    using h unfolding r by blast
qed

text \<open>
  C5, as the specification states it, fails in two ways. The source starts the maximum
  at 0: with no list for the chosen group in the record the list is empty, there is no
  maximum, and the next index is 1. And \<open>maxForkIndex + 1\<close> is an addition of Numbers:
  with the fork index \<open>2 ^ 53\<close> in the chosen list the sum rounds to \<open>2 ^ 53\<close>, which is
  neither the maximum plus 1 nor greater than the index already assigned.
\<close>

theorem resolveForkPlan_nextForkIndex_counterexample:
  "same_turn_nodes (ascii ''u-0'') [node ''conv-1'' ''u-0'' ''g1'' 0 100] \<noteq> [] \<and>
   group_nodes Map.empty (plan_forkGroupId (resolveForkPlan (ascii ''conv-1'') (ascii ''u-0'')
      [node ''conv-1'' ''u-0'' ''g1'' 0 100] Map.empty (\<lambda>_. ascii ''new-group''))) = [] \<and>
   nextForkIndex (resolveForkPlan (ascii ''conv-1'') (ascii ''u-0'')
      [node ''conv-1'' ''u-0'' ''g1'' 0 100] Map.empty (\<lambda>_. ascii ''new-group'')) = 1 \<and>
   is_number 9007199254740992 \<and>
   same_turn_nodes (ascii ''u-0'') [node ''conv-1'' ''u-0'' ''g1'' 9007199254740992 100] \<noteq> [] \<and>
   map forkIndex (group_nodes large_index_groups
     (plan_forkGroupId (resolveForkPlan (ascii ''conv-1'') (ascii ''u-0'')
      [node ''conv-1'' ''u-0'' ''g1'' 9007199254740992 100] large_index_groups
      (\<lambda>_. ascii ''new-group'')))) = [9007199254740992] \<and>
   nextForkIndex (resolveForkPlan (ascii ''conv-1'') (ascii ''u-0'')
      [node ''conv-1'' ''u-0'' ''g1'' 9007199254740992 100] large_index_groups
      (\<lambda>_. ascii ''new-group'')) = 9007199254740992"
  by code_simp

text \<open>
  C5, amended. When at least one node matches, \<open>nextForkIndex\<close> is the sum, as Numbers, of
  1 and the maximum of 0 and the \<open>forkIndex\<close> values of the chosen group's node list.
  When every \<open>forkIndex\<close> of that list is below \<open>2 ^ 53\<close> the sum is exact and greater
  than every \<open>forkIndex\<close> of the list (so \<open>nextForkIndex\<close> is 1 for an empty list, and the
  maximum \<open>forkIndex\<close> plus 1 for a non-empty list without negative indices). Without the
  bound, \<open>nextForkIndex\<close> is still not smaller than any \<open>forkIndex\<close> of the list, and it
  is monotone: a second call whose chosen node list contains every node of the first
  one's returns a \<open>nextForkIndex\<close> that is not smaller.
\<close>

theorem resolveForkPlan_nextForkIndex:
  assumes "same_turn_nodes tId conversationNodes \<noteq> []"
  shows "nextForkIndex (resolveForkPlan cId tId conversationNodes groupsById createForkGroupId) =
           number_add (Max (insert 0 (forkIndex ` set (group_nodes groupsById
             (plan_forkGroupId (resolveForkPlan cId tId conversationNodes groupsById createForkGroupId)))))) 1 \<and>
         (list_all (\<lambda>n. forkIndex n < 2 ^ 53) (group_nodes groupsById
             (plan_forkGroupId (resolveForkPlan cId tId conversationNodes groupsById createForkGroupId)))
          \<longrightarrow> nextForkIndex (resolveForkPlan cId tId conversationNodes groupsById createForkGroupId) =
                Max (insert 0 (forkIndex ` set (group_nodes groupsById
                  (plan_forkGroupId (resolveForkPlan cId tId conversationNodes groupsById createForkGroupId))))) + 1 \<and>
              list_all (\<lambda>n. forkIndex n < nextForkIndex (resolveForkPlan cId tId conversationNodes groupsById createForkGroupId))
                (group_nodes groupsById
                  (plan_forkGroupId (resolveForkPlan cId tId conversationNodes groupsById createForkGroupId)))) \<and>
         (group_nodes groupsById
             (plan_forkGroupId (resolveForkPlan cId tId conversationNodes groupsById createForkGroupId)) \<noteq> [] \<and>
          list_all (\<lambda>n. 0 \<le> forkIndex n \<and> forkIndex n < 2 ^ 53) (group_nodes groupsById
             (plan_forkGroupId (resolveForkPlan cId tId conversationNodes groupsById createForkGroupId)))
          \<longrightarrow> nextForkIndex (resolveForkPlan cId tId conversationNodes groupsById createForkGroupId) =
                Max (forkIndex ` set (group_nodes groupsById
                  (plan_forkGroupId (resolveForkPlan cId tId conversationNodes groupsById createForkGroupId)))) + 1) \<and>
         (list_all (\<lambda>n. is_number (forkIndex n)) (group_nodes groupsById
             (plan_forkGroupId (resolveForkPlan cId tId conversationNodes groupsById createForkGroupId)))
          \<longrightarrow> list_all (\<lambda>n. forkIndex n \<le> nextForkIndex (resolveForkPlan cId tId conversationNodes groupsById createForkGroupId))
                (group_nodes groupsById
                  (plan_forkGroupId (resolveForkPlan cId tId conversationNodes groupsById createForkGroupId)))) \<and>
         (\<forall>cId' tId' conversationNodes' groupsById' createForkGroupId'.
            same_turn_nodes tId' conversationNodes' \<noteq> [] \<and>
            set (group_nodes groupsById
              (plan_forkGroupId (resolveForkPlan cId tId conversationNodes groupsById createForkGroupId)))
            \<subseteq> set (group_nodes groupsById'
              (plan_forkGroupId (resolveForkPlan cId' tId' conversationNodes' groupsById' createForkGroupId')))
            \<longrightarrow> nextForkIndex (resolveForkPlan cId tId conversationNodes groupsById createForkGroupId)
                \<le> nextForkIndex (resolveForkPlan cId' tId' conversationNodes' groupsById' createForkGroupId'))"
proof -
  let ?p = "resolveForkPlan cId tId conversationNodes groupsById createForkGroupId"
  let ?chosen = "group_nodes groupsById (plan_forkGroupId ?p)"
  let ?m = "Max (insert 0 (forkIndex ` set ?chosen))"
  have n: "nextForkIndex ?p = number_add ?m 1"
    by (rule nextForkIndex_chosen [OF assms])
  have m0: "0 \<le> ?m"
    by (intro Max_ge) auto
  have mem: "?m = 0 \<or> ?m \<in> forkIndex ` set ?chosen"
    using Max_in [of "insert 0 (forkIndex ` set ?chosen)"] by auto
  have ge: "\<And>x. x \<in> set ?chosen \<Longrightarrow> forkIndex x \<le> ?m"
    by (intro Max_ge) auto
  have b: "nextForkIndex ?p = ?m + 1 \<and> list_all (\<lambda>n. forkIndex n < nextForkIndex ?p) ?chosen"
    if h: "list_all (\<lambda>n. forkIndex n < 2 ^ 53) ?chosen"
  proof -
    from h mem have "?m < 2 ^ 53"
      by (auto simp: list_all_iff)
    with m0 have e: "number_add ?m 1 = ?m + 1"
      by (rule number_add_safe)
    have "\<forall>x \<in> set ?chosen. forkIndex x < ?m + 1"
      using ge by fastforce
    with e show ?thesis
      by (simp only: n list_all_iff)
  qed
  have c: "nextForkIndex ?p = Max (forkIndex ` set ?chosen) + 1"
    if h: "?chosen \<noteq> [] \<and> list_all (\<lambda>n. 0 \<le> forkIndex n \<and> forkIndex n < 2 ^ 53) ?chosen"
  proof -
    from h have "list_all (\<lambda>n. forkIndex n < 2 ^ 53) ?chosen"
      by (simp add: list_all_iff)
    then have e: "nextForkIndex ?p = ?m + 1"
      using b by blast
    from h have "\<forall>x \<in> forkIndex ` set ?chosen. 0 \<le> x"
      by (auto simp: list_all_iff)
    moreover from h have ne: "forkIndex ` set ?chosen \<noteq> {}"
      by simp
    ultimately have "0 \<le> Max (forkIndex ` set ?chosen)"
      by (meson List.finite_set Max_in finite_imageI)
    with ne have "?m = Max (forkIndex ` set ?chosen)"
      by simp
    with e show ?thesis
      by (simp only:)
  qed
  have d: "list_all (\<lambda>n. forkIndex n \<le> nextForkIndex ?p) ?chosen"
    if h: "list_all (\<lambda>n. is_number (forkIndex n)) ?chosen"
  proof -
    have "is_number 0"
      by (simp add: is_number_def to_number_def round53_small bit_length_nonpos)
    with h mem have "is_number ?m"
      by (auto simp: list_all_iff)
    with m0 have "?m \<le> number_add ?m 1"
      by (rule number_add_ge)
    then have "\<forall>x \<in> set ?chosen. forkIndex x \<le> number_add ?m 1"
      using ge by fastforce
    then show ?thesis
      by (simp only: n list_all_iff)
  qed
  have e: "nextForkIndex ?p
      \<le> nextForkIndex (resolveForkPlan cId' tId' conversationNodes' groupsById' createForkGroupId')"
    if h: "same_turn_nodes tId' conversationNodes' \<noteq> [] \<and>
        set ?chosen \<subseteq> set (group_nodes groupsById'
          (plan_forkGroupId (resolveForkPlan cId' tId' conversationNodes' groupsById' createForkGroupId')))"
    for cId' tId' conversationNodes' groupsById' createForkGroupId'
  proof -
    let ?q = "resolveForkPlan cId' tId' conversationNodes' groupsById' createForkGroupId'"
    from h have "?m \<le> Max (insert 0 (forkIndex ` set (group_nodes groupsById' (plan_forkGroupId ?q))))"
      by (intro Max_mono) auto
    with m0 have "number_add ?m 1
        \<le> number_add (Max (insert 0 (forkIndex ` set (group_nodes groupsById' (plan_forkGroupId ?q))))) 1"
      by (rule number_add_mono)
    moreover from h have "nextForkIndex ?q =
        number_add (Max (insert 0 (forkIndex ` set (group_nodes groupsById' (plan_forkGroupId ?q))))) 1"
      by (intro nextForkIndex_chosen) simp
    ultimately show ?thesis
      by (simp only: n)
  qed
  from n b c d e show ?thesis
    by blast
qed

theorem resolveForkPlan_nextForkIndex_witness:
  "same_turn_nodes (ascii ''u-0'') example_conversation_nodes \<noteq> [] \<and>
   map forkIndex (group_nodes example_groups
     (plan_forkGroupId (resolveForkPlan (ascii ''conv-1'') (ascii ''u-0'') example_conversation_nodes
        example_groups (\<lambda>_. ascii ''new-group'')))) = [0, 4] \<and>
   list_all (\<lambda>n. is_number (forkIndex n) \<and> 0 \<le> forkIndex n \<and> forkIndex n < 2 ^ 53)
     (group_nodes example_groups
       (plan_forkGroupId (resolveForkPlan (ascii ''conv-1'') (ascii ''u-0'') example_conversation_nodes
          example_groups (\<lambda>_. ascii ''new-group'')))) \<and>
   nextForkIndex (resolveForkPlan (ascii ''conv-1'') (ascii ''u-0'') example_conversation_nodes
      example_groups (\<lambda>_. ascii ''new-group'')) = 5 \<and>
   set (group_nodes example_groups
     (plan_forkGroupId (resolveForkPlan (ascii ''conv-1'') (ascii ''u-0'') example_conversation_nodes
        example_groups (\<lambda>_. ascii ''new-group''))))
   \<subseteq> set (group_nodes grown_groups
     (plan_forkGroupId (resolveForkPlan (ascii ''conv-1'') (ascii ''u-0'') example_conversation_nodes
        grown_groups (\<lambda>_. ascii ''new-group'')))) \<and>
   nextForkIndex (resolveForkPlan (ascii ''conv-1'') (ascii ''u-0'') example_conversation_nodes
      example_groups (\<lambda>_. ascii ''new-group''))
   \<le> nextForkIndex (resolveForkPlan (ascii ''conv-1'') (ascii ''u-0'') example_conversation_nodes
      grown_groups (\<lambda>_. ascii ''new-group''))"
proof -
  let ?p = "resolveForkPlan (ascii ''conv-1'') (ascii ''u-0'') example_conversation_nodes
      example_groups (\<lambda>_. ascii ''new-group'')"
  let ?q = "resolveForkPlan (ascii ''conv-1'') (ascii ''u-0'') example_conversation_nodes
      grown_groups (\<lambda>_. ascii ''new-group'')"
  have h: "same_turn_nodes (ascii ''u-0'') example_conversation_nodes \<noteq> []"
    by code_simp
  have g: "map forkIndex (group_nodes example_groups (plan_forkGroupId ?p)) = [0, 4]"
    by code_simp
  have w: "list_all (\<lambda>n. is_number (forkIndex n) \<and> 0 \<le> forkIndex n \<and> forkIndex n < 2 ^ 53)
      (group_nodes example_groups (plan_forkGroupId ?p))"
    by code_simp
  from g have ne: "group_nodes example_groups (plan_forkGroupId ?p) \<noteq> []"
    by auto
  from w have w1: "list_all (\<lambda>n. forkIndex n < 2 ^ 53) (group_nodes example_groups (plan_forkGroupId ?p))"
    and w2: "list_all (\<lambda>n. 0 \<le> forkIndex n \<and> forkIndex n < 2 ^ 53) (group_nodes example_groups (plan_forkGroupId ?p))"
    and w3: "list_all (\<lambda>n. is_number (forkIndex n)) (group_nodes example_groups (plan_forkGroupId ?p))"
    by (simp_all add: list_all_iff)
  have s: "set (group_nodes example_groups (plan_forkGroupId ?p))
      \<subseteq> set (group_nodes grown_groups (plan_forkGroupId ?q))"
    by code_simp
  note t = resolveForkPlan_nextForkIndex [OF h, of "ascii ''conv-1''" example_groups "\<lambda>_. ascii ''new-group''"]
  from t ne w2 have "nextForkIndex ?p =
      Max (forkIndex ` set (group_nodes example_groups (plan_forkGroupId ?p))) + 1"
    by blast
  then have "nextForkIndex ?p =
      Max (set (map forkIndex (group_nodes example_groups (plan_forkGroupId ?p)))) + 1"
    by simp
  then have a: "nextForkIndex ?p = 5"
    unfolding g by simp
  from t w1 have "list_all (\<lambda>n. forkIndex n < nextForkIndex ?p) (group_nodes example_groups (plan_forkGroupId ?p))"
    by blast
  from t w3 have "list_all (\<lambda>n. forkIndex n \<le> nextForkIndex ?p) (group_nodes example_groups (plan_forkGroupId ?p))"
    by blast
  from t h s have "nextForkIndex ?p \<le> nextForkIndex ?q"
    by blast
  with h a g s w show ?thesis
    by simp
qed

section \<open>Properties of the branch display\<close>

lemma map_of_map_set: "map_of (map_set m k v) = (map_of m)(k \<mapsto> v)"
  by (induction m) auto

lemma map_fst_map_set:
  "map fst (map_set m k v) = (if k \<in> fst ` set m then map fst m else map fst m @ [k])"
  by (induction m) force+

lemma distinct_map_set: "distinct (map fst m) \<Longrightarrow> distinct (map fst (map_set m k v))"
  by (simp add: map_fst_map_set)

lemma node_le_refl: "node_le a a"
  by (simp add: node_le_def)

lemma node_le_trans: "node_le a b \<Longrightarrow> node_le b c \<Longrightarrow> node_le a c"
  by (auto simp: node_le_def)

lemma node_le_total: "\<not> node_le a b \<Longrightarrow> node_le b a"
  by (auto simp: node_le_def)

lemma compare_nodes_le: "compare_nodes a b \<le> 0 \<longleftrightarrow> node_le a b"
  by (auto simp: compare_nodes_def node_le_def)

lemma dedupe_inv_replace:
  assumes inv: "dedupe_inv m seen"
    and best: "\<forall>n \<in> set seen. conversationId n = conversationId x \<longrightarrow> node_le x n"
  shows "dedupe_inv (map_set m (conversationId x) x) (seen @ [x])"
  unfolding dedupe_inv_def
proof (intro conjI)
  from inv show "distinct (map fst (map_set m (conversationId x) x))"
    by (simp add: dedupe_inv_def distinct_map_set)
next
  from inv show "dom (map_of (map_set m (conversationId x) x)) = conversationId ` set (seen @ [x])"
    by (auto simp: dedupe_inv_def map_of_map_set)
next
  show "\<forall>k v. map_of (map_set m (conversationId x) x) k = Some v \<longrightarrow>
        conversationId v = k \<and> v \<in> set (seen @ [x]) \<and>
        (\<forall>n \<in> set (seen @ [x]). conversationId n = k \<longrightarrow> node_le v n)"
  proof (intro allI impI)
  fix k v
  assume kv: "map_of (map_set m (conversationId x) x) k = Some v"
  show "conversationId v = k \<and> v \<in> set (seen @ [x]) \<and>
        (\<forall>n \<in> set (seen @ [x]). conversationId n = k \<longrightarrow> node_le v n)"
  proof (cases "k = conversationId x")
    case True
    with kv have "v = x"
      by (simp add: map_of_map_set)
    with True best show ?thesis
      by (auto simp: node_le_refl)
  next
    case False
    with kv have "map_of m k = Some v"
      by (simp add: map_of_map_set)
    with inv have "conversationId v = k \<and> v \<in> set seen \<and>
        (\<forall>n \<in> set seen. conversationId n = k \<longrightarrow> node_le v n)"
      unfolding dedupe_inv_def by blast
    with False show ?thesis
      by auto
  qed
  qed
qed

lemma dedupe_inv_keep:
  assumes inv: "dedupe_inv m seen"
    and ex: "map_of m (conversationId x) = Some e"
    and le: "node_le e x"
  shows "dedupe_inv m (seen @ [x])"
  unfolding dedupe_inv_def
proof (intro conjI)
  from inv show "distinct (map fst m)"
    by (simp add: dedupe_inv_def)
next
  from inv have "dom (map_of m) = conversationId ` set seen"
    by (simp add: dedupe_inv_def)
  moreover from ex have "conversationId x \<in> dom (map_of m)"
    by auto
  ultimately show "dom (map_of m) = conversationId ` set (seen @ [x])"
    by auto
next
  show "\<forall>k v. map_of m k = Some v \<longrightarrow>
        conversationId v = k \<and> v \<in> set (seen @ [x]) \<and>
        (\<forall>n \<in> set (seen @ [x]). conversationId n = k \<longrightarrow> node_le v n)"
  proof (intro allI impI)
  fix k v
  assume kv: "map_of m k = Some v"
  with inv have old: "conversationId v = k \<and> v \<in> set seen \<and>
        (\<forall>n \<in> set seen. conversationId n = k \<longrightarrow> node_le v n)"
    unfolding dedupe_inv_def by blast
  have "conversationId x = k \<longrightarrow> node_le v x"
    using kv ex le by auto
  with old show "conversationId v = k \<and> v \<in> set (seen @ [x]) \<and>
        (\<forall>n \<in> set (seen @ [x]). conversationId n = k \<longrightarrow> node_le v n)"
    by auto
  qed
qed

lemma dedupe_step_inv:
  assumes inv: "dedupe_inv m seen"
  shows "dedupe_inv (dedupe_step m x) (seen @ [x])"
proof (cases "map_of m (conversationId x)")
  case None
  with inv have "conversationId x \<notin> conversationId ` set seen"
    unfolding dedupe_inv_def by (metis domIff)
  then have "\<forall>n \<in> set seen. conversationId n = conversationId x \<longrightarrow> node_le x n"
    by (metis image_eqI)
  from dedupe_inv_replace [OF inv this] None show ?thesis
    by (simp add: dedupe_step_def)
next
  case (Some e)
  with inv have e: "\<forall>n \<in> set seen. conversationId n = conversationId x \<longrightarrow> node_le e n"
    unfolding dedupe_inv_def by blast
  show ?thesis
  proof (cases "forkIndex x < forkIndex e \<or> (forkIndex x = forkIndex e \<and> createdAt x < createdAt e)")
    case True
    then have "node_le x e"
      by (auto simp: node_le_def)
    with e have "\<forall>n \<in> set seen. conversationId n = conversationId x \<longrightarrow> node_le x n"
      by (blast intro: node_le_trans)
    from dedupe_inv_replace [OF inv this] Some True show ?thesis
      by (auto simp: dedupe_step_def)
  next
    case False
    then have "node_le e x"
      by (auto simp: node_le_def)
    from dedupe_inv_keep [OF inv Some this] Some False show ?thesis
      by (auto simp: dedupe_step_def)
  qed
qed

lemma foldl_dedupe_step_inv:
  "dedupe_inv m seen \<Longrightarrow> dedupe_inv (foldl dedupe_step m ns) (seen @ ns)"
proof (induction ns arbitrary: m seen)
  case Nil
  then show ?case by simp
next
  case (Cons n ns)
  from Cons.IH [OF dedupe_step_inv [OF Cons.prems, of n]] show ?case
    by simp
qed

lemma dedupe_inv_empty: "dedupe_inv [] []"
  by (simp add: dedupe_inv_def)

lemma mset_insert_sorted: "mset (insert_sorted cmp x ys) = add_mset x (mset ys)"
  by (induction ys) auto

lemma mset_array_sort: "mset (array_sort cmp xs) = mset xs"
  unfolding array_sort_def by (induction xs) (auto simp: mset_insert_sorted)

lemma set_insert_sorted: "set (insert_sorted cmp x ys) = insert x (set ys)"
  by (induction ys) auto

lemma sorted_insert_sorted:
  "sorted_wrt node_le ys \<Longrightarrow> sorted_wrt node_le (insert_sorted compare_nodes x ys)"
proof (induction ys)
  case Nil
  then show ?case by simp
next
  case (Cons y ys)
  show ?case
  proof (cases "compare_nodes x y \<le> 0")
    case True
    then have "node_le x y"
      by (simp add: compare_nodes_le)
    with Cons.prems True show ?thesis
      by (auto intro: node_le_trans)
  next
    case False
    then have "node_le y x"
      by (simp add: compare_nodes_le node_le_total)
    with Cons False show ?thesis
      by (auto simp: set_insert_sorted)
  qed
qed

lemma sorted_array_sort: "sorted_wrt node_le (array_sort compare_nodes xs)"
  unfolding array_sort_def by (induction xs) (auto simp: sorted_insert_sorted)

lemma dedupe_values:
  assumes "dedupe_inv m seen"
  shows "map conversationId (map snd m) = map fst m"
    and "set (map snd m) \<subseteq> set seen"
    and "\<forall>r \<in> set (map snd m). \<forall>n \<in> set seen. conversationId n = conversationId r \<longrightarrow> node_le r n"
proof -
  from assms have d: "distinct (map fst m)"
    by (simp add: dedupe_inv_def)
  have p: "conversationId v = k \<and> v \<in> set seen \<and>
      (\<forall>n \<in> set seen. conversationId n = k \<longrightarrow> node_le v n)" if "(k, v) \<in> set m" for k v
  proof -
    from d that have "map_of m k = Some v"
      by simp
    with assms show ?thesis
      unfolding dedupe_inv_def by blast
  qed
  show "map conversationId (map snd m) = map fst m"
    using p by (auto simp: map_eq_conv)
  show "set (map snd m) \<subseteq> set seen"
    using p by auto
  show "\<forall>r \<in> set (map snd m). \<forall>n \<in> set seen. conversationId n = conversationId r \<longrightarrow> node_le r n"
    using p by fastforce
qed

text \<open>
  C6. The display list holds each conversation at most once; every node of it is one of
  the candidates, every candidate's conversation is represented, the representative is
  least among the candidates of its conversation (smallest \<open>forkIndex\<close>, then smallest
  \<open>createdAt\<close>); and the list is sorted by \<open>forkIndex\<close>, then \<open>createdAt\<close>.
\<close>

theorem buildBranchDisplayNodes_dedup_sorted:
  "distinct (map conversationId (buildBranchDisplayNodes groupNodesList)) \<and>
   set (buildBranchDisplayNodes groupNodesList) \<subseteq> set (concat groupNodesList) \<and>
   conversationId ` set (buildBranchDisplayNodes groupNodesList) =
     conversationId ` set (concat groupNodesList) \<and>
   (\<forall>r \<in> set (buildBranchDisplayNodes groupNodesList). \<forall>n \<in> set (concat groupNodesList).
      conversationId n = conversationId r \<longrightarrow> node_le r n) \<and>
   sorted_wrt node_le (buildBranchDisplayNodes groupNodesList)"
proof -
  let ?m = "foldl dedupe_step [] (concat groupNodesList)"
  let ?out = "buildBranchDisplayNodes groupNodesList"
  have inv: "dedupe_inv ?m (concat groupNodesList)"
    using foldl_dedupe_step_inv [OF dedupe_inv_empty, of "concat groupNodesList"] by simp
  have out: "?out = array_sort compare_nodes (map snd ?m)"
    by (simp add: buildBranchDisplayNodes_def)
  have ms: "mset ?out = mset (map snd ?m)"
    by (simp add: out mset_array_sort)
  then have st: "set ?out = set (map snd ?m)"
    by (rule mset_eq_setD)
  from ms have "mset (map conversationId ?out) = mset (map conversationId (map snd ?m))"
    by (metis mset_map)
  then have "distinct (map conversationId ?out) = distinct (map conversationId (map snd ?m))"
    by (rule mset_eq_imp_distinct_iff)
  moreover from inv have "distinct (map fst ?m)"
    by (simp add: dedupe_inv_def)
  then have "distinct (map conversationId (map snd ?m))"
    by (simp only: dedupe_values(1) [OF inv])
  ultimately have 1: "distinct (map conversationId ?out)"
    by blast
  from st dedupe_values(2) [OF inv] have 2: "set ?out \<subseteq> set (concat groupNodesList)"
    by simp
  have "conversationId ` set (map snd ?m) = set (map conversationId (map snd ?m))"
    by (simp only: set_map)
  also have "\<dots> = set (map fst ?m)"
    by (simp only: dedupe_values(1) [OF inv])
  also have "\<dots> = dom (map_of ?m)"
    by (simp add: dom_map_of_conv_image_fst)
  also from inv have "\<dots> = conversationId ` set (concat groupNodesList)"
    by (simp add: dedupe_inv_def)
  finally have 3: "conversationId ` set ?out = conversationId ` set (concat groupNodesList)"
    by (simp only: st)
  from st dedupe_values(3) [OF inv]
  have 4: "\<forall>r \<in> set ?out. \<forall>n \<in> set (concat groupNodesList).
      conversationId n = conversationId r \<longrightarrow> node_le r n"
    by simp
  have 5: "sorted_wrt node_le ?out"
    by (simp add: out sorted_array_sort)
  from 1 2 3 4 5 show ?thesis
    by blast
qed

theorem buildBranchDisplayNodes_dedup_sorted_witness:
  "map conversationId (buildBranchDisplayNodes [group_a, group_b]) =
     [ascii ''conv-1'', ascii ''conv-2'', ascii ''conv-3''] \<and>
   distinct (map conversationId (buildBranchDisplayNodes [group_a, group_b])) \<and>
   sorted_wrt node_le (buildBranchDisplayNodes [group_a, group_b]) \<and>
   hd (buildBranchDisplayNodes [group_a, group_b]) \<in> set (concat [group_a, group_b])"
proof -
  have a: "map conversationId (buildBranchDisplayNodes [group_a, group_b]) =
     [ascii ''conv-1'', ascii ''conv-2'', ascii ''conv-3'']"
    by code_simp
  then have "hd (buildBranchDisplayNodes [group_a, group_b]) \<in> set (buildBranchDisplayNodes [group_a, group_b])"
    by (cases "buildBranchDisplayNodes [group_a, group_b]") auto
  with buildBranchDisplayNodes_dedup_sorted [of "[group_a, group_b]"] a show ?thesis
    by blast
qed

section \<open>Properties of the markdown transcript\<close>

lemma clear_last_assistant_snoc:
  "clear_last_assistant (turns @ [turn]) = turns @ [turn\<lparr>assistant := Some []\<rparr>]"
  by (simp add: clear_last_assistant_def)

lemma trim_empty: "trim [] = []"
  by (simp add: trim_def)

lemma turn_lines_cleared: "turn_lines (turn\<lparr>assistant := Some []\<rparr>) = [USER_HEADING, [], user turn, []]"
  by (simp add: turn_lines_def trim_empty)

lemma buildForkMarkdown_drop_last:
  "buildForkMarkdown title (turns @ [turn]) True =
     join [0x0A] ([title_line title, []] @ concat (map turn_lines turns) @
       [USER_HEADING, [], user turn, []])"
  by (simp add: buildForkMarkdown_def clear_last_assistant_snoc turn_lines_cleared)

text \<open>
  C7, as the specification states it, fails: the final assistant content can occur in the
  output although neither the title nor an earlier turn contains it, through the fixed
  text of a heading or through the final turn's own user text.
\<close>

theorem buildForkMarkdown_claim_counterexample:
  "\<not> sublist (ascii ''User'') (ascii ''T'') \<and>
   sublist (ascii ''User'')
     (buildForkMarkdown (ascii ''T'') [\<lparr>user = ascii ''q'', assistant = Some (ascii ''User'')\<rparr>] True) \<and>
   \<not> sublist (ascii ''hello'') (ascii ''T'') \<and>
   sublist (ascii ''hello'')
     (buildForkMarkdown (ascii ''T'')
        [\<lparr>user = ascii ''say hello'', assistant = Some (ascii ''hello'')\<rparr>] True)"
  by code_simp

text \<open>
  C7, amended. The empty list of turns gives the empty string. With
  \<open>dropLastAssistant\<close> set, the output is the title line, the sections of the earlier
  turns and the User section of the final turn, with no Assistant section for the final
  turn; so it is the same whatever the final turn's assistant content is, and it does not
  contain that content unless this rest of the document does.
\<close>

theorem buildForkMarkdown_drops_last_assistant:
  "buildForkMarkdown title [] dropLastAssistant = [] \<and>
   buildForkMarkdown title (turns @ [turn]) True =
     join [0x0A] ([title_line title, []] @ concat (map turn_lines turns) @
       [USER_HEADING, [], user turn, []]) \<and>
   buildForkMarkdown title (turns @ [turn\<lparr>assistant := a\<rparr>]) True =
     buildForkMarkdown title (turns @ [turn]) True \<and>
   (assistant turn = Some answer \<and>
    \<not> sublist answer
        (join [0x0A] ([title_line title, []] @ concat (map turn_lines turns) @
           [USER_HEADING, [], user turn, []]))
    \<longrightarrow> \<not> sublist answer (buildForkMarkdown title (turns @ [turn]) True))"
proof -
  have "buildForkMarkdown title [] dropLastAssistant = []"
    by (simp add: buildForkMarkdown_def)
  moreover have "buildForkMarkdown title (turns @ [turn\<lparr>assistant := a\<rparr>]) True =
     buildForkMarkdown title (turns @ [turn]) True"
    by (simp only: buildForkMarkdown_drop_last) simp
  ultimately show ?thesis
    by (simp only: buildForkMarkdown_drop_last) simp
qed

theorem buildForkMarkdown_drops_last_assistant_witness:
  "assistant (example_turns ! 1) = Some (ascii ''a2'') \<and>
   \<not> sublist (ascii ''a2'')
       (join [0x0A] ([title_line (ascii ''Fork Test''), []] @
          concat (map turn_lines [example_turns ! 0]) @
          [USER_HEADING, [], user (example_turns ! 1), []])) \<and>
   \<not> sublist (ascii ''a2'')
       (buildForkMarkdown (ascii ''Fork Test'') ([example_turns ! 0] @ [example_turns ! 1]) True) \<and>
   sublist (ascii ''a1'')
       (buildForkMarkdown (ascii ''Fork Test'') ([example_turns ! 0] @ [example_turns ! 1]) True) \<and>
   buildForkMarkdown (ascii ''Fork Test'')
     ([example_turns ! 0] @ [(example_turns ! 1)\<lparr>assistant := Some (ascii ''another answer'')\<rparr>]) True =
   buildForkMarkdown (ascii ''Fork Test'') ([example_turns ! 0] @ [example_turns ! 1]) True"
proof -
  have a: "assistant (example_turns ! 1) = Some (ascii ''a2'')"
    by code_simp
  have b: "\<not> sublist (ascii ''a2'')
       (join [0x0A] ([title_line (ascii ''Fork Test''), []] @
          concat (map turn_lines [example_turns ! 0]) @
          [USER_HEADING, [], user (example_turns ! 1), []]))"
    by code_simp
  have c: "sublist (ascii ''a1'')
       (buildForkMarkdown (ascii ''Fork Test'') ([example_turns ! 0] @ [example_turns ! 1]) True)"
    by code_simp
  from buildForkMarkdown_drops_last_assistant
    [of "ascii ''Fork Test''" True "[example_turns ! 0]" "example_turns ! 1"
      "Some (ascii ''another answer'')" "ascii ''a2''"] a b c
  show ?thesis
    by blast
qed

lemma read_turn_append: "read_turn h a = Some t \<Longrightarrow> read_turn (h @ zs) a = Some t"
  by (auto simp: read_turn_def nth_append split: if_splits)

lemma read_array_append: "read_array h a = Some refs \<Longrightarrow> read_array (h @ zs) a = Some refs"
  by (auto simp: read_array_def nth_append split: if_splits)

lemma read_turns_all2:
  "read_turns h refs = Some ts \<Longrightarrow> list_all2 (\<lambda>a t. read_turn h a = Some t) refs ts"
proof (induction refs arbitrary: ts)
  case Nil
  then show ?case by simp
next
  case (Cons a refs)
  from Cons.prems obtain t ts' where "read_turn h a = Some t" "read_turns h refs = Some ts'"
    "ts = t # ts'"
    by (auto split: option.splits)
  with Cons.IH [of ts'] show ?case
    by simp
qed

lemma all2_read_turns:
  "list_all2 (\<lambda>a t. read_turn h a = Some t) refs ts \<Longrightarrow> read_turns h refs = Some ts"
  by (induction refs ts rule: list_all2_induct) simp_all

lemma read_turns_append: "read_turns h refs = Some ts \<Longrightarrow> read_turns (h @ zs) refs = Some ts"
proof -
  assume "read_turns h refs = Some ts"
  then have "list_all2 (\<lambda>a t. read_turn h a = Some t) refs ts"
    by (rule read_turns_all2)
  then have "list_all2 (\<lambda>a t. read_turn (h @ zs) a = Some t) refs ts"
    by (rule list_all2_mono) (simp add: read_turn_append)
  then show ?thesis
    by (rule all2_read_turns)
qed

lemma read_turn_new:
  "i < length ts \<Longrightarrow> read_turn (h @ map TurnObject ts @ zs) (length h + i) = Some (ts ! i)"
  by (simp add: read_turn_def nth_append)

lemma read_turns_new:
  "read_turns (h @ map TurnObject ts @ zs) [length h ..< length h + length ts] = Some ts"
  by (rule all2_read_turns) (simp add: list_all2_conv_all_nth read_turn_new)

lemma upt_shift: "[n ..< n + Suc k] = n # [Suc n ..< Suc n + k]"
  by (subst upt_rec) simp

lemma copy_turns_fresh:
  "read_turns h refs = Some ts \<Longrightarrow>
     copy_turns h refs = Some ([length h ..< length h + length refs], h @ map TurnObject ts)"
proof (induction refs arbitrary: h ts)
  case Nil
  then show ?case by simp
next
  case (Cons a refs)
  from Cons.prems obtain t ts' where t: "read_turn h a = Some t"
    and ts': "read_turns h refs = Some ts'" and ts: "ts = t # ts'"
    by (auto split: option.splits)
  from ts' have "read_turns (h @ [TurnObject t]) refs = Some ts'"
    by (rule read_turns_append)
  from Cons.IH [OF this]
  have "copy_turns (h @ [TurnObject t]) refs =
      Some ([Suc (length h) ..< Suc (length h) + length refs], h @ TurnObject t # map TurnObject ts')"
    by (simp del: upt_Suc)
  moreover have "[length h ..< length h + length (a # refs)] =
      length h # [Suc (length h) ..< Suc (length h) + length refs]"
    using upt_shift [of "length h" "length refs"] by simp
  ultimately show ?case
    using t ts by (simp add: alloc_def del: upt_Suc)
qed

lemma read_turns_length: "read_turns h refs = Some ts \<Longrightarrow> length ts = length refs"
  by (drule read_turns_all2) (simp add: list_all2_lengthD)

lemma write_last_copy:
  assumes "ts \<noteq> []"
  shows "write_assistant (h @ map TurnObject ts @ zs) (length h + (length ts - 1)) [] =
           Some (h @ map TurnObject (clear_last_assistant ts) @ zs)"
proof -
  from assms obtain ts' t where ts: "ts = ts' @ [t]"
    by (cases ts rule: rev_cases) auto
  have r: "read_turn (h @ map TurnObject ts @ zs) (length h + (length ts - 1)) = Some t"
    using read_turn_new [of "length ts - 1" ts h zs] by (simp add: ts)
  have "(h @ map TurnObject ts @ zs)[length h + (length ts - 1) := TurnObject (t\<lparr>assistant := Some []\<rparr>)]
      = ((h @ map TurnObject ts') @ TurnObject t # zs)[length (h @ map TurnObject ts') :=
          TurnObject (t\<lparr>assistant := Some []\<rparr>)]"
    by (simp add: ts)
  also have "\<dots> = (h @ map TurnObject ts') @ TurnObject (t\<lparr>assistant := Some []\<rparr>) # zs"
    by (rule list_update_length)
  also have "\<dots> = h @ map TurnObject (clear_last_assistant ts) @ zs"
    by (simp add: ts clear_last_assistant_snoc)
  finally show ?thesis
    using r by (simp add: write_assistant_def)
qed

lemma read_array_new:
  "read_array (h @ objs @ [TurnArray refs]) (length h + length objs) = Some refs"
  by (simp add: read_array_def nth_append)

text \<open>
  C9. On a heap where \<open>turns\<close> refers to an array of references to turn objects, the call
  returns the markdown of the function on values and a heap in which every object that
  existed before the call is unchanged; in particular the array \<open>turns\<close> and every turn
  record in it read as before, also with \<open>dropLastAssistant\<close> set: the write goes to a
  copy.
\<close>

theorem buildForkMarkdown_heap_frame:
  assumes arr: "read_array h turns = Some refs"
    and elems: "read_turns h refs = Some ts"
  shows "\<exists>md h'. buildForkMarkdown_heap h title turns dropLastAssistant = Some (md, h') \<and>
           md = buildForkMarkdown title ts dropLastAssistant \<and>
           take (length h) h' = h \<and>
           read_array h' turns = Some refs \<and> read_turns h' refs = Some ts"
proof (cases "refs = []")
  case True
  with elems have "ts = []"
    by simp
  with True arr elems show ?thesis
    by (simp add: buildForkMarkdown_heap_def buildForkMarkdown_def)
next
  case False
  from elems have len: "length ts = length refs"
    by (rule read_turns_length)
  with False have ne: "ts \<noteq> []"
    by auto
  let ?copies = "[length h ..< length h + length refs]"
  let ?nts = "if dropLastAssistant then clear_last_assistant ts else ts"
  let ?h3 = "h @ map TurnObject ?nts @ [TurnArray ?copies]"
  have c: "copy_turns h refs = Some (?copies, h @ map TurnObject ts)"
    using elems by (rule copy_turns_fresh)
  from False have "length h + (length refs - 1) < length h + length refs"
    by (cases refs) auto
  then have "?copies ! (length refs - 1) = length h + (length refs - 1)"
    by (rule nth_upt)
  then have last: "?copies ! (length ?copies - 1) = length h + (length ts - 1)"
    by (simp add: len)
  have w: "(if dropLastAssistant \<and> length ?copies > 0
            then write_assistant (h @ map TurnObject ts @ [TurnArray ?copies])
                   (?copies ! (length ?copies - 1)) []
            else Some (h @ map TurnObject ts @ [TurnArray ?copies])) = Some ?h3"
    using False write_last_copy [OF ne, of h "[TurnArray ?copies]"] by (simp add: last len)
  have lnts: "length ?nts = length refs"
    by (simp add: len clear_last_assistant_def)
  have ra: "read_array ?h3 (length h + length ts) = Some ?copies"
    using read_array_new [of h "map TurnObject ?nts" ?copies] by (simp add: lnts len)
  have rt: "read_turns ?h3 ?copies = Some ?nts"
    using read_turns_new [of h ?nts "[TurnArray ?copies]"] by (simp only: lnts)
  have run: "buildForkMarkdown_heap h title turns dropLastAssistant =
      Some (join [0x0A] ([title_line title, []] @ concat (map turn_lines ?nts)), ?h3)"
    unfolding buildForkMarkdown_heap_def using False
    by (simp only: arr c w ra rt alloc_def option.case prod.case Let_def length_append
        length_map list.size length_0_conv if_False append_assoc)
  have md: "join [0x0A] ([title_line title, []] @ concat (map turn_lines ?nts)) =
      buildForkMarkdown title ts dropLastAssistant"
    using ne by (simp add: buildForkMarkdown_def)
  have arr': "read_array ?h3 turns = Some refs"
    using arr by (rule read_array_append)
  have elems': "read_turns ?h3 refs = Some ts"
    using elems by (rule read_turns_append)
  from run md arr' elems' show ?thesis
    by simp
qed

theorem buildForkMarkdown_heap_frame_witness:
  "read_array example_heap 1 = Some [0, 2] \<and>
   read_turns example_heap [0, 2] = Some example_turns \<and>
   snd (the (buildForkMarkdown_heap example_heap (ascii ''Fork Test'') 1 True)) =
     example_heap @
     [TurnObject (example_turns ! 0), TurnObject ((example_turns ! 1)\<lparr>assistant := Some []\<rparr>),
      TurnArray [3, 4]] \<and>
   (\<exists>md h'. buildForkMarkdown_heap example_heap (ascii ''Fork Test'') 1 True = Some (md, h') \<and>
      md = buildForkMarkdown (ascii ''Fork Test'') example_turns True \<and>
      take (length example_heap) h' = example_heap \<and>
      read_array h' 1 = Some [0, 2] \<and> read_turns h' [0, 2] = Some example_turns)"
proof -
  have a: "read_array example_heap 1 = Some [0, 2]"
    by code_simp
  have b: "read_turns example_heap [0, 2] = Some example_turns"
    by code_simp
  have c: "snd (the (buildForkMarkdown_heap example_heap (ascii ''Fork Test'') 1 True)) =
     example_heap @
     [TurnObject (example_turns ! 0), TurnObject ((example_turns ! 1)\<lparr>assistant := Some []\<rparr>),
      TurnArray [3, 4]]"
    by code_simp
  from buildForkMarkdown_heap_frame [OF a b] a b c show ?thesis
    by blast
qed

section \<open>Properties of the merge\<close>

lemma node_identity_pick_entry:
  "node_identity m = node_identity n \<Longrightarrow> node_identity (pick_entry m n) = node_identity n"
  by (simp add: pick_entry_def)

lemma map_identity_merge_entry:
  "map node_identity (merge_entry acc n) =
     (if node_identity n \<in> node_identity ` set acc then map node_identity acc
      else map node_identity acc @ [node_identity n])"
  by (induction acc) (auto simp: node_identity_pick_entry)

lemma distinct_merge_entry:
  "distinct (map node_identity acc) \<Longrightarrow> distinct (map node_identity (merge_entry acc n))"
  by (simp add: map_identity_merge_entry)

lemma distinct_foldl_merge_entry:
  "distinct (map node_identity acc) \<Longrightarrow> distinct (map node_identity (foldl merge_entry acc xs))"
  by (induction xs arbitrary: acc) (simp_all add: distinct_merge_entry)

lemma filter_merge_entry:
  assumes "distinct (map node_identity acc)"
  shows "filter (\<lambda>m. node_identity m = i) (merge_entry acc n) =
     (if node_identity n = i
      then (case filter (\<lambda>m. node_identity m = i) acc of [] \<Rightarrow> [n] | m # _ \<Rightarrow> [pick_entry m n])
      else filter (\<lambda>m. node_identity m = i) acc)"
  using assms
proof (induction acc)
  case Nil
  then show ?case by simp
next
  case (Cons m ms)
  show ?case
  proof (cases "node_identity m = node_identity n")
    case True
    from Cons.prems True have "\<forall>x \<in> set ms. node_identity x \<noteq> node_identity n"
      by (metis distinct.simps(2) image_eqI list.simps(9) set_map)
    then have "node_identity n = i \<Longrightarrow> filter (\<lambda>m. node_identity m = i) ms = []"
      by (auto simp: filter_empty_conv)
    with True show ?thesis
      by (auto simp: node_identity_pick_entry)
  next
    case False
    with Cons show ?thesis
      by auto
  qed
qed

lemma filter_identity_short:
  assumes "distinct (map node_identity acc)"
  shows "filter (\<lambda>m. node_identity m = i) acc = [] \<or>
         (\<exists>y. filter (\<lambda>m. node_identity m = i) acc = [y])"
  using assms
proof (induction acc)
  case Nil
  then show ?case by simp
next
  case (Cons m ms)
  show ?case
  proof (cases "node_identity m = i")
    case True
    with Cons.prems have "\<forall>x \<in> set ms. node_identity x \<noteq> i"
      by (metis distinct.simps(2) image_eqI list.simps(9) set_map)
    then have "filter (\<lambda>m. node_identity m = i) ms = []"
      by (auto simp: filter_empty_conv)
    with True show ?thesis
      by simp
  next
    case False
    with Cons show ?thesis
      by simp
  qed
qed

lemma filter_foldl_merge_entry:
  assumes "distinct (map node_identity acc)"
  shows "filter (\<lambda>m. node_identity m = i) (foldl merge_entry acc xs) =
     (case filter (\<lambda>m. node_identity m = i) acc @ filter (\<lambda>m. node_identity m = i) xs of
        [] \<Rightarrow> []
      | y # ys \<Rightarrow> [foldl pick_entry y ys])"
  using assms
proof (induction xs arbitrary: acc)
  case Nil
  from filter_identity_short [OF Nil, of i] show ?case
    by auto
next
  case (Cons x xs)
  note ih = Cons.IH [OF distinct_merge_entry [OF Cons.prems], of x]
  from filter_identity_short [OF Cons.prems, of i]
  show ?case
  proof
    assume e: "filter (\<lambda>m. node_identity m = i) acc = []"
    with ih show ?thesis
      by (simp add: filter_merge_entry [OF Cons.prems])
  next
    assume "\<exists>y. filter (\<lambda>m. node_identity m = i) acc = [y]"
    then obtain y where "filter (\<lambda>m. node_identity m = i) acc = [y]"
      by blast
    with ih show ?thesis
      by (simp add: filter_merge_entry [OF Cons.prems])
  qed
qed

lemma conversation_nodes_merge_nodes:
  "conversation_nodes (merge_nodes l c) cid =
     merge_conversation (conversation_nodes l cid) (conversation_nodes c cid)"
proof (cases "cid \<in> fst ` set l \<union> fst ` set c")
  case True
  then have "cid \<in> set (array_from_set (map fst l @ map fst c))"
    by (simp add: array_from_set_def set_foldl_set_add)
  then show ?thesis
    by (simp add: conversation_nodes_def merge_nodes_def map_of_map_restrict)
next
  case False
  then have n: "cid \<notin> set (array_from_set (map fst l @ map fst c))"
    by (simp add: array_from_set_def set_foldl_set_add)
  from False have "map_of l cid = None" "map_of c cid = None"
    by (simp_all add: map_of_eq_None_iff)
  with n show ?thesis
    by (simp add: conversation_nodes_def merge_nodes_def map_of_map_restrict
        merge_conversation_def)
qed

lemma nodes_mergeForkNodes:
  "nodes (mergeForkNodes local cloud) =
     merge_nodes (nodes (dataset_of local)) (nodes (dataset_of cloud))"
  by (simp add: mergeForkNodes_def Let_def)

lemma filter_merged_conversation:
  "filter (\<lambda>m. node_identity m = i)
     (conversation_nodes (nodes (mergeForkNodes local cloud)) cid) =
   (case filter (\<lambda>m. node_identity m = i) (conversation_nodes (nodes (dataset_of local)) cid) @
         filter (\<lambda>m. node_identity m = i) (conversation_nodes (nodes (dataset_of cloud)) cid) of
      [] \<Rightarrow> []
    | y # ys \<Rightarrow> [foldl pick_entry y ys])"
proof -
  let ?L = "conversation_nodes (nodes (dataset_of local)) cid"
  let ?C = "conversation_nodes (nodes (dataset_of cloud)) cid"
  have "filter (\<lambda>m. node_identity m = i) (foldl merge_entry [] (?L @ ?C)) =
      (case filter (\<lambda>m. node_identity m = i) [] @ filter (\<lambda>m. node_identity m = i) (?L @ ?C) of
         [] \<Rightarrow> []
       | y # ys \<Rightarrow> [foldl pick_entry y ys])"
    by (rule filter_foldl_merge_entry) simp
  then have "filter (\<lambda>m. node_identity m = i) (merge_conversation ?L ?C) =
      (case filter (\<lambda>m. node_identity m = i) ?L @ filter (\<lambda>m. node_identity m = i) ?C of
         [] \<Rightarrow> []
       | y # ys \<Rightarrow> [foldl pick_entry y ys])"
    by (simp only: merge_conversation_def filter.simps filter_append append_Nil)
  then show ?thesis
    by (simp only: nodes_mergeForkNodes conversation_nodes_merge_nodes)
qed

text \<open>
  C1. When the local and the cloud replica each hold one entry of an identity for a
  conversation, the merged collection of that conversation holds exactly one entry of the
  identity: the cloud entry when its \<open>createdAt\<close> is strictly greater, the local entry
  otherwise (in particular on a tie), taken whole, whatever the other fields are. A
  conversation in which neither replica holds the identity does not hold it after the
  merge either.
\<close>

theorem mergeForkNodes_newer_entry_wins:
  assumes "filter (\<lambda>m. node_identity m = i) (conversation_nodes (nodes (dataset_of local)) cid) = [nl]"
    and "filter (\<lambda>m. node_identity m = i) (conversation_nodes (nodes (dataset_of cloud)) cid) = [nc]"
  shows "filter (\<lambda>m. node_identity m = i)
           (conversation_nodes (nodes (mergeForkNodes local cloud)) cid) =
         [if createdAt nc > createdAt nl then nc else nl] \<and>
         (\<forall>cid'.
            filter (\<lambda>m. node_identity m = i)
              (conversation_nodes (nodes (dataset_of local)) cid') = [] \<and>
            filter (\<lambda>m. node_identity m = i)
              (conversation_nodes (nodes (dataset_of cloud)) cid') = [] \<longrightarrow>
            filter (\<lambda>m. node_identity m = i)
              (conversation_nodes (nodes (mergeForkNodes local cloud)) cid') = [])"
proof (intro conjI allI impI)
  show "filter (\<lambda>m. node_identity m = i)
           (conversation_nodes (nodes (mergeForkNodes local cloud)) cid) =
         [if createdAt nc > createdAt nl then nc else nl]"
    by (simp add: filter_merged_conversation assms pick_entry_def)
next
  fix cid'
  assume "filter (\<lambda>m. node_identity m = i)
              (conversation_nodes (nodes (dataset_of local)) cid') = [] \<and>
            filter (\<lambda>m. node_identity m = i)
              (conversation_nodes (nodes (dataset_of cloud)) cid') = []"
  then show "filter (\<lambda>m. node_identity m = i)
              (conversation_nodes (nodes (mergeForkNodes local cloud)) cid') = []"
    by (simp add: filter_merged_conversation)
qed

theorem mergeForkNodes_newer_entry_wins_witness:
  "filter (\<lambda>m. node_identity m = (ascii ''conv1'', ascii ''u-0'', ascii ''fork-1''))
     (conversation_nodes (nodes (dataset_of local_replica)) (ascii ''conv1'')) =
     [titled ''Local'' (node ''conv1'' ''u-0'' ''fork-1'' 0 1000)] \<and>
   filter (\<lambda>m. node_identity m = (ascii ''conv1'', ascii ''u-0'', ascii ''fork-1''))
     (conversation_nodes (nodes (dataset_of cloud_replica)) (ascii ''conv1'')) =
     [titled ''Cloud'' (node ''conv1'' ''u-0'' ''fork-1'' 0 1000)] \<and>
   filter (\<lambda>m. node_identity m = (ascii ''conv1'', ascii ''u-0'', ascii ''fork-1''))
     (conversation_nodes (nodes (mergeForkNodes local_replica cloud_replica)) (ascii ''conv1'')) =
     [titled ''Local'' (node ''conv1'' ''u-0'' ''fork-1'' 0 1000)] \<and>
   filter (\<lambda>m. node_identity m = (ascii ''conv1'', ascii ''u-0'', ascii ''fork-1''))
     (conversation_nodes (nodes (mergeForkNodes local_replica cloud_replica)) (ascii ''conv2'')) = []"
proof -
  have a: "filter (\<lambda>m. node_identity m = (ascii ''conv1'', ascii ''u-0'', ascii ''fork-1''))
     (conversation_nodes (nodes (dataset_of local_replica)) (ascii ''conv1'')) =
     [titled ''Local'' (node ''conv1'' ''u-0'' ''fork-1'' 0 1000)]"
    by code_simp
  have b: "filter (\<lambda>m. node_identity m = (ascii ''conv1'', ascii ''u-0'', ascii ''fork-1''))
     (conversation_nodes (nodes (dataset_of cloud_replica)) (ascii ''conv1'')) =
     [titled ''Cloud'' (node ''conv1'' ''u-0'' ''fork-1'' 0 1000)]"
    by code_simp
  have c: "filter (\<lambda>m. node_identity m = (ascii ''conv1'', ascii ''u-0'', ascii ''fork-1''))
       (conversation_nodes (nodes (dataset_of local_replica)) (ascii ''conv2'')) = [] \<and>
     filter (\<lambda>m. node_identity m = (ascii ''conv1'', ascii ''u-0'', ascii ''fork-1''))
       (conversation_nodes (nodes (dataset_of cloud_replica)) (ascii ''conv2'')) = []"
    by code_simp
  have d: "createdAt (titled ''Cloud'' (node ''conv1'' ''u-0'' ''fork-1'' 0 1000)) =
      createdAt (titled ''Local'' (node ''conv1'' ''u-0'' ''fork-1'' 0 1000))"
    by (simp add: titled_def node_def)
  note t = mergeForkNodes_newer_entry_wins [OF a b]
  from t have "filter (\<lambda>m. node_identity m = (ascii ''conv1'', ascii ''u-0'', ascii ''fork-1''))
     (conversation_nodes (nodes (mergeForkNodes local_replica cloud_replica)) (ascii ''conv1'')) =
     [titled ''Local'' (node ''conv1'' ''u-0'' ''fork-1'' 0 1000)]"
    by (simp add: d)
  moreover from t c
  have "filter (\<lambda>m. node_identity m = (ascii ''conv1'', ascii ''u-0'', ascii ''fork-1''))
     (conversation_nodes (nodes (mergeForkNodes local_replica cloud_replica)) (ascii ''conv2'')) = []"
    by blast
  ultimately show ?thesis
    using a b by simp
qed

lemma group_keys_map_set:
  "group_keys (map_set gs g ks) g' = (if g' = g then ks else group_keys gs g')"
  by (simp add: group_keys_def map_of_map_set)

lemma fst_set_map_set: "fst ` set (map_set gs g ks) = insert g (fst ` set gs)"
proof -
  have "fst ` set (map_set gs g ks) = set (map fst (map_set gs g ks))"
    by simp
  also have "\<dots> = insert g (fst ` set gs)"
    by (simp only: map_fst_map_set) auto
  finally show ?thesis .
qed

lemma group_keys_nonempty:
  assumes "k \<in> set (group_keys gs g)"
  shows "g \<in> fst ` set gs"
proof (cases "map_of gs g")
  case None
  with assms show ?thesis
    by (simp add: group_keys_def)
next
  case (Some ks)
  then have "(g, ks) \<in> set gs"
    by (rule map_of_SomeD)
  then show ?thesis
    by force
qed

lemma add_to_group_inv:
  assumes inv: "groups_inv gs seen"
  shows "groups_inv (add_to_group gs n) (seen @ [n])"
proof (cases "composite_key n \<in> set (group_keys gs (forkGroupId n))")
  case True
  then have g: "forkGroupId n \<in> fst ` set gs"
    by (rule group_keys_nonempty)
  have eq: "add_to_group gs n = gs"
    using True by (simp add: add_to_group_def)
  have "set (group_keys gs g) = composite_key ` {m \<in> set (seen @ [n]). forkGroupId m = g}" for g
  proof (cases "g = forkGroupId n")
    case True
    from inv have "set (group_keys gs g) = composite_key ` {m \<in> set seen. forkGroupId m = g}"
      by (simp add: groups_inv_def)
    moreover have "{m \<in> set (seen @ [n]). forkGroupId m = g} = insert n {m \<in> set seen. forkGroupId m = g}"
      using True by auto
    ultimately show ?thesis
      using \<open>composite_key n \<in> set (group_keys gs (forkGroupId n))\<close> True by auto
  next
    case False
    then have "{m \<in> set (seen @ [n]). forkGroupId m = g} = {m \<in> set seen. forkGroupId m = g}"
      by auto
    with inv show ?thesis
      by (simp add: groups_inv_def)
  qed
  moreover from inv g have "fst ` set gs = forkGroupId ` set (seen @ [n])"
    by (auto simp: groups_inv_def)
  moreover from inv have "distinct (map fst gs)" and "\<forall>g. distinct (group_keys gs g)"
    by (simp_all add: groups_inv_def)
  ultimately show ?thesis
    unfolding eq groups_inv_def by blast
next
  case False
  let ?gs = "map_set gs (forkGroupId n) (group_keys gs (forkGroupId n) @ [composite_key n])"
  from inv have 1: "distinct (map fst ?gs)"
    by (simp add: groups_inv_def distinct_map_set)
  from inv have 2: "fst ` set ?gs = forkGroupId ` set (seen @ [n])"
    by (auto simp: groups_inv_def fst_set_map_set)
  have 3: "set (group_keys ?gs g) = composite_key ` {m \<in> set (seen @ [n]). forkGroupId m = g}" for g
  proof (cases "g = forkGroupId n")
    case True
    from inv have "set (group_keys gs g) = composite_key ` {m \<in> set seen. forkGroupId m = g}"
      by (simp add: groups_inv_def)
    moreover have "{m \<in> set (seen @ [n]). forkGroupId m = g} = insert n {m \<in> set seen. forkGroupId m = g}"
      using True by auto
    ultimately show ?thesis
      using True by (simp add: group_keys_map_set)
  next
    case False
    then have "{m \<in> set (seen @ [n]). forkGroupId m = g} = {m \<in> set seen. forkGroupId m = g}"
      by auto
    with inv False show ?thesis
      by (simp add: groups_inv_def group_keys_map_set)
  qed
  from inv False have 4: "distinct (group_keys ?gs g)" for g
    by (simp add: groups_inv_def group_keys_map_set)
  have eq: "add_to_group gs n = ?gs"
    using False by (simp add: add_to_group_def)
  from 1 2 3 4 show ?thesis
    unfolding eq groups_inv_def by blast
qed

lemma foldl_add_to_group_inv:
  "groups_inv gs seen \<Longrightarrow> groups_inv (foldl add_to_group gs ns) (seen @ ns)"
proof (induction ns arbitrary: gs seen)
  case Nil
  then show ?case by simp
next
  case (Cons n ns)
  from Cons.IH [OF add_to_group_inv [OF Cons.prems, of n]] show ?case
    by simp
qed

lemma rebuild_groups_inv: "groups_inv (rebuild_groups idx) (concat (map snd idx))"
proof -
  have "groups_inv [] []"
    by (simp add: groups_inv_def group_keys_def)
  from foldl_add_to_group_inv [OF this, of "concat (map snd idx)"] show ?thesis
    by (simp add: rebuild_groups_def)
qed

text \<open>
  C2. In every output of the merge the groups index is the projection of the nodes
  index: the member list of a group holds exactly the composite keys of the merged nodes
  of that group, no key twice; each group is listed once, and the groups listed are
  those of the merged nodes. The groups indices of the two arguments have no influence.
\<close>

theorem mergeForkNodes_groups_from_nodes:
  "(\<forall>g. set (group_keys (groups (mergeForkNodes local cloud)) g) =
        composite_key ` {n \<in> set (concat (map snd (nodes (mergeForkNodes local cloud)))).
                          forkGroupId n = g}) \<and>
   (\<forall>g. distinct (group_keys (groups (mergeForkNodes local cloud)) g)) \<and>
   distinct (map fst (groups (mergeForkNodes local cloud))) \<and>
   fst ` set (groups (mergeForkNodes local cloud)) =
     forkGroupId ` set (concat (map snd (nodes (mergeForkNodes local cloud)))) \<and>
   mergeForkNodes (Dataset (l\<lparr>groups := gl\<rparr>)) (Dataset (c\<lparr>groups := gc\<rparr>)) =
     mergeForkNodes (Dataset l) (Dataset c)"
proof -
  let ?merged = "merge_nodes (nodes (dataset_of local)) (nodes (dataset_of cloud))"
  have n: "nodes (mergeForkNodes local cloud) = ?merged"
    and g: "groups (mergeForkNodes local cloud) = rebuild_groups ?merged"
    by (simp_all add: mergeForkNodes_def Let_def)
  have "mergeForkNodes (Dataset (l\<lparr>groups := gl\<rparr>)) (Dataset (c\<lparr>groups := gc\<rparr>)) =
     mergeForkNodes (Dataset l) (Dataset c)"
    by (simp add: mergeForkNodes_def dataset_of_def)
  with rebuild_groups_inv [of ?merged] show ?thesis
    unfolding n g groups_inv_def by blast
qed

theorem mergeForkNodes_groups_from_nodes_witness:
  "groups (mergeForkNodes local_replica cloud_replica) =
     [(ascii ''fork-1'', [ascii ''conv1:u-0'', ascii ''conv2:u-0''])] \<and>
   distinct (group_keys (groups (mergeForkNodes local_replica cloud_replica)) (ascii ''fork-1'')) \<and>
   set (group_keys (groups (mergeForkNodes local_replica cloud_replica)) (ascii ''fork-1'')) =
     composite_key ` {n \<in> set (concat (map snd (nodes (mergeForkNodes local_replica cloud_replica)))).
                       forkGroupId n = ascii ''fork-1''}"
proof -
  have "groups (mergeForkNodes local_replica cloud_replica) =
     [(ascii ''fork-1'', [ascii ''conv1:u-0'', ascii ''conv2:u-0''])]"
    by code_simp
  with mergeForkNodes_groups_from_nodes [of local_replica cloud_replica] show ?thesis
    by blast
qed

end
